theory Spec2Isabelle
  imports Main "HOL-Library.Sublist"
begin

section \<open>Text model\<close>

text \<open>
  A text (a Python \<open>str\<close>, the text of the editor's document, the content of a line
  edit) is a \<open>string\<close>: one \<open>char\<close> per character, offsets counted in characters. A
  \<open>char\<close> stands for the code point of its number, U+0000 to U+00FF, and the character
  classes below are the Unicode ones on these code points, as Python and the toolkit
  compute them. Texts with other characters are outside this model.
\<close>

definition newline :: char where
  "newline = CHR 0x0A"

definition carriage_return :: char where
  "carriage_return = CHR 0x0D"

definition blank :: char where
  "blank = CHR 0x20"

definition nbsp :: char where
  \<comment> \<open>the no-break space U+00A0\<close>
  "nbsp = CHR 0xA0"

definition in_range :: "nat \<Rightarrow> nat \<Rightarrow> char \<Rightarrow> bool" where
  "in_range lo hi c = (lo \<le> of_char c \<and> of_char c \<le> hi)"

definition is_upper :: "char \<Rightarrow> bool" where
  \<comment> \<open>\<open>A\<close> to \<open>Z\<close>\<close>
  "is_upper c = in_range 0x41 0x5A c"

definition is_lower :: "char \<Rightarrow> bool" where
  \<comment> \<open>\<open>a\<close> to \<open>z\<close>\<close>
  "is_lower c = in_range 0x61 0x7A c"

definition is_digit :: "char \<Rightarrow> bool" where
  \<comment> \<open>\<open>0\<close> to \<open>9\<close>\<close>
  "is_digit c = in_range 0x30 0x39 c"

definition is_letter :: "char \<Rightarrow> bool" where
  \<comment> \<open>the character class \<open>[a-zA-Z]\<close> of a regular expression\<close>
  "is_letter c = (is_upper c \<or> is_lower c)"

definition is_alpha :: "char \<Rightarrow> bool" where
  \<comment> \<open>a letter (Unicode categories L): the ASCII letters, the ordinal indicators
      U+00AA and U+00BA, the micro sign U+00B5, and U+00C0 to U+00FF but for the
      multiplication and division signs U+00D7 and U+00F7\<close>
  "is_alpha c =
     (is_letter c \<or> in_range 0xAA 0xAA c \<or> in_range 0xB5 0xB5 c \<or> in_range 0xBA 0xBA c
      \<or> in_range 0xC0 0xD6 c \<or> in_range 0xD8 0xF6 c \<or> in_range 0xF8 0xFF c)"

definition is_number :: "char \<Rightarrow> bool" where
  \<comment> \<open>a number (Unicode categories N): the digits, the superscripts U+00B2, U+00B3 and
      U+00B9, and the fractions U+00BC to U+00BE\<close>
  "is_number c =
     (is_digit c \<or> in_range 0xB2 0xB3 c \<or> in_range 0xB9 0xB9 c \<or> in_range 0xBC 0xBE c)"

definition to_lower :: "char \<Rightarrow> char" where
  \<comment> \<open>\<open>str.lower\<close> on one character: \<open>A\<close> to \<open>Z\<close> and U+00C0 to U+00DE (but for
      U+00D7) have their lower-case letter 32 code points on\<close>
  "to_lower c =
     (if is_upper c \<or> in_range 0xC0 0xD6 c \<or> in_range 0xD8 0xDE c
      then char_of ((of_char c :: nat) + 32) else c)"

definition is_letter_or_number :: "char \<Rightarrow> bool" where
  \<comment> \<open>the toolkit's \<open>QChar.isLetterOrNumber\<close>\<close>
  "is_letter_or_number c = (is_alpha c \<or> is_number c)"

definition is_word_char :: "char \<Rightarrow> bool" where
  \<comment> \<open>the class \<open>\w\<close> of a regular expression on a \<open>str\<close>: what \<open>str.isalnum\<close>
      holds of, and the underscore\<close>
  "is_word_char c = (is_alpha c \<or> is_number c \<or> c = CHR ''_'')"

definition is_space :: "char \<Rightarrow> bool" where
  \<comment> \<open>\<open>str.isspace\<close> on one character: tab to carriage return, the four separators
      U+001C to U+001F, the blank, the next-line control U+0085 and the no-break space\<close>
  "is_space c =
     (in_range 0x09 0x0D c \<or> in_range 0x1C 0x20 c \<or> in_range 0x85 0x85 c
      \<or> in_range 0xA0 0xA0 c)"

section \<open>core/text_analyzer.py\<close>

text \<open>\<open>str.count\<close> and \<open>str.rfind\<close> for a one-character needle; \<open>rfind\<close> answers
  \<open>-1\<close> when the character is absent.\<close>

fun str_count :: "string \<Rightarrow> char \<Rightarrow> nat" where
  "str_count [] c = 0"
| "str_count (x # xs) c = (if x = c then 1 else 0) + str_count xs c"

fun str_rfind :: "string \<Rightarrow> char \<Rightarrow> int" where
  "str_rfind [] c = - 1"
| "str_rfind (x # xs) c =
     (let r = str_rfind xs c
      in if r \<noteq> - 1 then r + 1 else if x = c then 0 else - 1)"

definition get_line_col :: "string \<Rightarrow> int \<Rightarrow> int \<times> int" where
  "get_line_col text cursor_position =
     (if text = [] \<or> cursor_position < 0 then (1, 1)
      else
        let cursor_position = min cursor_position (int (length text));
            text_before = take (nat cursor_position) text;
            line_number = int (str_count text_before newline) + 1;
            last_newline = str_rfind text_before newline;
            column_number =
              (if last_newline = - 1 then cursor_position + 1
               else cursor_position - last_newline)
        in (line_number, column_number))"

definition clamp_offset :: "string \<Rightarrow> int \<Rightarrow> nat" where
  \<comment> \<open>the offset clamped to \<open>[0, length text]\<close>\<close>
  "clamp_offset text offset = nat (max 0 (min offset (int (length text))))"

section \<open>The text document of the editor\<close>

text \<open>
  The editor is a plain-text widget of the GUI toolkit (Qt); its document
  (\<open>QTextDocument\<close>), its cursors (\<open>QTextCursor\<close>) and the document's search are the
  toolkit's, not this program's. They are modelled here as the toolkit defines them, on
  the plain text of the document (paragraphs joined by \<open>newline\<close>), as far as the find
  and replace code uses them.

  A cursor has an anchor and a position; the text between them is its selection. A null
  cursor (the answer of a search that found nothing) is \<open>None\<close>.
\<close>

record text_cursor =
  anchor :: nat
  position :: nat

definition selection_start :: "text_cursor \<Rightarrow> nat" where
  "selection_start c = min (anchor c) (position c)"

definition selection_end :: "text_cursor \<Rightarrow> nat" where
  "selection_end c = max (anchor c) (position c)"

definition has_selection :: "text_cursor \<Rightarrow> bool" where
  "has_selection c = (anchor c \<noteq> position c)"

definition selected_text :: "string \<Rightarrow> text_cursor \<Rightarrow> string option" where
  \<comment> \<open>The selected text. Across a paragraph break the toolkit puts a paragraph
      separator (U+2029) where the plain text has \<open>newline\<close>; such a selection equals no
      text of this model: \<open>None\<close>.\<close>
  "selected_text doc c =
     (let sel = take (selection_end c - selection_start c) (drop (selection_start c) doc)
      in if newline \<in> set sel then None else Some sel)"

datatype move_mode = MoveAnchor | KeepAnchor

definition set_position :: "string \<Rightarrow> text_cursor \<Rightarrow> nat \<Rightarrow> move_mode \<Rightarrow> text_cursor" where
  \<comment> \<open>a position past the end of the document is refused: the cursor stays as it is\<close>
  "set_position doc c pos m =
     (if length doc < pos then c
      else case m of MoveAnchor \<Rightarrow> \<lparr>anchor = pos, position = pos\<rparr>
                   | KeepAnchor \<Rightarrow> c\<lparr>position := pos\<rparr>)"

text \<open>
  Text that is inserted into a document is broken into paragraphs at every line feed, at
  every carriage return, and once at a carriage return with a line feed behind it. The
  document's text has a \<open>newline\<close> at each paragraph break, so a document holds no
  carriage return.
\<close>

fun inserted :: "string \<Rightarrow> string" where
  "inserted [] = []"
| "inserted [c] = [if c = carriage_return then newline else c]"
| "inserted (c # d # s) =
     (if c = carriage_return \<and> d = newline then newline # inserted s
      else (if c = carriage_return then newline else c) # inserted (d # s))"

definition insert_text :: "string \<Rightarrow> text_cursor \<Rightarrow> string \<Rightarrow> string \<times> text_cursor" where
  \<comment> \<open>\<open>cursor.insertText\<close>: the selection is replaced by the text, and the cursor
      stands behind the inserted text with no selection\<close>
  "insert_text doc c s =
     (take (selection_start c) doc @ inserted s @ drop (selection_end c) doc,
      \<lparr>anchor = selection_start c + length (inserted s),
       position = selection_start c + length (inserted s)\<rparr>)"

definition blank_nbsp :: "string \<Rightarrow> string" where
  \<comment> \<open>the text with a blank for every no-break space\<close>
  "blank_nbsp s = map (\<lambda>c. if c = nbsp then blank else c) s"

lemma length_blank_nbsp [simp]: "length (blank_nbsp s) = length s"
  by (simp add: blank_nbsp_def)

definition to_plain_text :: "string \<Rightarrow> string" where
  \<comment> \<open>\<open>toPlainText()\<close>: the document's text, no-break spaces shown as blanks\<close>
  "to_plain_text doc = blank_nbsp doc"

subsection \<open>The document's search\<close>

record find_flags =
  find_case_sensitively :: bool
  find_whole_words :: bool

fun first_occurrence :: "string \<Rightarrow> string \<Rightarrow> nat option" where
  "first_occurrence sub [] = (if sub = [] then Some 0 else None)"
| "first_occurrence sub (x # xs) =
     (if prefix sub (x # xs) then Some 0 else map_option Suc (first_occurrence sub xs))"

definition fold_case :: "bool \<Rightarrow> string \<Rightarrow> string" where
  "fold_case case_sensitive s = (if case_sensitive then s else map to_lower s)"

definition index_of :: "bool \<Rightarrow> string \<Rightarrow> string \<Rightarrow> nat \<Rightarrow> nat option" where
  \<comment> \<open>the least index at or after \<open>from\<close> where \<open>sub\<close> occurs in \<open>txt\<close>\<close>
  "index_of case_sensitive sub txt from =
     (if length txt < from then None
      else map_option (\<lambda>i. from + i)
             (first_occurrence (fold_case case_sensitive sub)
                (fold_case case_sensitive (drop from txt))))"

lemma first_occurrence_bound:
  "first_occurrence sub xs = Some i \<Longrightarrow> i + length sub \<le> length xs"
proof (induction xs arbitrary: i)
  case Nil
  then show ?case by (simp split: if_splits)
next
  case (Cons x xs)
  then show ?case
    by (auto dest: prefix_length_le split: if_splits)
qed

lemma index_of_bounds:
  assumes "index_of cs sub txt from = Some idx"
  shows "from \<le> idx \<and> idx + length sub \<le> length txt"
proof -
  from assms obtain i where i: "idx = from + i" "from \<le> length txt"
    "first_occurrence (fold_case cs sub) (fold_case cs (drop from txt)) = Some i"
    by (auto simp: index_of_def split: if_splits)
  from first_occurrence_bound [OF i(3)] have "i + length sub \<le> length txt - from"
    by (simp add: fold_case_def split: if_splits)
  with i show ?thesis by simp
qed

text \<open>
  The search reads a paragraph's text with blanks for its no-break spaces. It compares
  characters exactly when the flag \<open>FindCaseSensitively\<close> is set, and up to the case of
  letters otherwise (the case folding of the toolkit and \<open>to_lower\<close> identify the same
  characters of this model). With \<open>FindWholeWords\<close> it looks at the characters next to a
  candidate: a letter or a number on either side rejects it, and the search goes on one
  character behind the rejected candidate's end.
\<close>

function find_from :: "find_flags \<Rightarrow> string \<Rightarrow> string \<Rightarrow> nat \<Rightarrow> nat option" where
  "find_from flags sub txt offset =
     (if length txt < offset then None
      else
        case index_of (find_case_sensitively flags) sub txt offset of
          None \<Rightarrow> None
        | Some idx \<Rightarrow>
            if find_whole_words flags
               \<and> ((idx \<noteq> 0 \<and> is_letter_or_number (txt ! (idx - 1)))
                  \<or> (idx + length sub \<noteq> length txt
                      \<and> is_letter_or_number (txt ! (idx + length sub))))
            then find_from flags sub txt (idx + length sub + 1)
            else Some idx)"
  by pat_completeness auto
termination
proof (relation "measure (\<lambda>(flags, sub, txt, offset). Suc (length txt) - offset)")
  show "wf (measure (\<lambda>(flags, sub, txt, offset). Suc (length txt) - offset))" by simp
next
  fix flags :: find_flags and sub s :: string and offset idx :: nat
  assume "\<not> length s < offset"
    and "index_of (find_case_sensitively flags) sub s offset = Some idx"
  then show "((flags, sub, s, idx + length sub + 1), (flags, sub, s, offset))
      \<in> measure (\<lambda>(flags, sub, txt, offset). Suc (length txt) - offset)"
    using index_of_bounds [of "find_case_sensitively flags" sub s offset idx]
    by (simp; arith)
qed

definition document_find :: "string \<Rightarrow> string \<Rightarrow> text_cursor \<Rightarrow> find_flags \<Rightarrow> text_cursor option" where
  \<comment> \<open>\<open>document.find(sub, cursor, flags)\<close>, forwards: the search starts at the end of the
      cursor's selection and answers a cursor that selects the occurrence. The search
      goes paragraph by paragraph, so a text with a \<open>newline\<close> in it occurs nowhere.\<close>
  "document_find doc sub cursor flags =
     (if sub = [] \<or> newline \<in> set sub then None
      else map_option (\<lambda>idx. \<lparr>anchor = idx, position = idx + length sub\<rparr>)
             (find_from flags sub (blank_nbsp doc) (selection_end cursor)))"

declare find_from.simps [simp del]

lemma find_from_bounds:
  "find_from flags sub s offset = Some idx
     \<Longrightarrow> offset \<le> idx \<and> idx + length sub \<le> length s"
proof (induction flags sub s offset rule: find_from.induct)
  case (1 flags sub s offset)
  from "1.prems" obtain i where i: "\<not> length s < offset"
    "index_of (find_case_sensitively flags) sub s offset = Some i"
    by (subst (asm) find_from.simps) (auto split: if_splits option.splits)
  note b = index_of_bounds [OF i(2)]
  show ?case
  proof (cases "find_from flags sub s offset = Some i")
    case True
    with "1.prems" b show ?thesis by simp
  next
    case False
    with "1.prems" i have rej: "find_whole_words flags
         \<and> ((i \<noteq> 0 \<and> is_letter_or_number (s ! (i - 1)))
            \<or> (i + length sub \<noteq> length s \<and> is_letter_or_number (s ! (i + length sub))))"
      and "find_from flags sub s (i + length sub + 1) = Some idx"
      by (subst (asm) (1 2) find_from.simps, simp split: if_splits)+
    with "1.IH" [OF i(1) i(2) rej] b show ?thesis by simp
  qed
qed

lemma document_find_bounds:
  assumes "document_find doc sub cursor flags = Some c"
  shows "sub \<noteq> [] \<and> selection_end cursor \<le> anchor c
         \<and> position c = anchor c + length sub \<and> position c \<le> length doc"
proof -
  from assms obtain idx where "sub \<noteq> []"
    "find_from flags sub (blank_nbsp doc) (selection_end cursor) = Some idx"
    "c = \<lparr>anchor = idx, position = idx + length sub\<rparr>"
    by (auto simp: document_find_def split: if_splits)
  with find_from_bounds [of flags sub "blank_nbsp doc" "selection_end cursor" idx]
  show ?thesis by simp
qed

lemma document_find_advances:
  assumes "document_find doc sub cursor flags = Some c"
  shows "selection_end cursor < selection_end c \<and> selection_end c \<le> length doc
         \<and> selection_start c = anchor c \<and> selection_end c = position c"
  using document_find_bounds [OF assms]
  by (cases sub) (auto simp: selection_end_def selection_start_def)

section \<open>ui/main_window.py: the find bar\<close>

text \<open>
  The loop of \<open>perform_find\<close>: search again from the cursor the last search answered,
  until the answer is the null cursor. The cursors found are the highlights (the extra
  selections); their selection starts are the match positions.
\<close>

function find_loop :: "string \<Rightarrow> string \<Rightarrow> find_flags \<Rightarrow> text_cursor \<Rightarrow> text_cursor list" where
  "find_loop doc search_text flags cursor =
     (case document_find doc search_text cursor flags of
        None \<Rightarrow> []
      | Some c \<Rightarrow> c # find_loop doc search_text flags c)"
  by pat_completeness auto
termination
proof (relation "measure (\<lambda>(doc, search_text, flags, cursor). length doc - selection_end cursor)")
  show "wf (measure (\<lambda>(doc, search_text, flags, cursor). length doc - selection_end cursor))"
    by simp
next
  fix doc search_text :: string and flags :: find_flags and cursor c :: text_cursor
  assume "document_find doc search_text cursor flags = Some c"
  from document_find_advances [OF this]
  show "((doc, search_text, flags, c), (doc, search_text, flags, cursor))
      \<in> measure (\<lambda>(doc, search_text, flags, cursor). length doc - selection_end cursor)"
    by (simp; arith)
qed

declare find_loop.simps [simp del]

datatype message =
    NoMessage
  | PleaseEnterText
  | FoundMatches nat
  | NoMatchesFound
  | MatchOf int nat
  | NoMoreMatches
  | ReplacedOne
  | ReplacedOccurrences nat

record editor =
  document :: string
  text_cursor :: text_cursor

text \<open>
  The state of the main window that the find bar works on: the current editor (\<open>None\<close>
  when no tab is open), the highlights set on it, the find bar's input and case box, the
  match positions with the current index, and the message of the status bar.
\<close>

record main_window =
  current_editor :: "editor option"
  extra_selections :: "text_cursor list"
  find_input :: string
  find_case_sensitive :: bool
  find_matches :: "nat list"
  current_match_index :: int
  status_message :: message

definition strip :: "string \<Rightarrow> string" where
  \<comment> \<open>\<open>str.strip()\<close>\<close>
  "strip s = rev (dropWhile is_space (rev (dropWhile is_space s)))"

definition py_index :: "'a list \<Rightarrow> int \<Rightarrow> 'a option" where
  \<comment> \<open>the list subscript \<open>xs[i]\<close>; \<open>None\<close> stands for the IndexError\<close>
  "py_index xs i =
     (if 0 \<le> i \<and> i < int (length xs) then Some (xs ! nat i)
      else if i < 0 \<and> - int (length xs) \<le> i then Some (xs ! nat (int (length xs) + i))
      else None)"

definition jump_to_match :: "main_window \<Rightarrow> int \<Rightarrow> main_window option" where
  "jump_to_match w index =
     (case current_editor w of
        None \<Rightarrow> Some w
      | Some editor \<Rightarrow>
          if find_matches w = [] then Some w
          else
            case py_index (find_matches w) index of
              None \<Rightarrow> None
            | Some pos \<Rightarrow>
                let search_text = find_input w;
                    cursor = \<lparr>anchor = 0, position = 0\<rparr>;
                    cursor = set_position (document editor) cursor pos MoveAnchor;
                    cursor = set_position (document editor) cursor
                               (pos + length search_text) KeepAnchor
                in Some (w\<lparr>current_editor := Some (editor\<lparr>text_cursor := cursor\<rparr>),
                           status_message := MatchOf (index + 1) (length (find_matches w))\<rparr>))"

definition perform_find :: "main_window \<Rightarrow> main_window option" where
  "perform_find w =
     (case current_editor w of
        None \<Rightarrow> Some w
      | Some editor \<Rightarrow>
          let search_text = strip (find_input w) in
          if search_text = [] then Some (w\<lparr>status_message := PleaseEnterText\<rparr>)
          else
            let flags = \<lparr>find_case_sensitively = find_case_sensitive w,
                         find_whole_words = False\<rparr>;
                found = find_loop (document editor) search_text flags
                          \<lparr>anchor = 0, position = 0\<rparr>;
                w = w\<lparr>find_matches := map selection_start found,
                      current_match_index := - 1,
                      extra_selections := found\<rparr>
            in if find_matches w \<noteq> [] then
                 (case jump_to_match (w\<lparr>current_match_index := 0\<rparr>) 0 of
                    None \<Rightarrow> None
                  | Some w \<Rightarrow>
                      Some (w\<lparr>status_message := FoundMatches (length (find_matches w))\<rparr>))
               else Some (w\<lparr>status_message := NoMatchesFound\<rparr>))"

definition find_next :: "main_window \<Rightarrow> main_window option" where
  "find_next w =
     (if find_matches w = [] then perform_find w
      else if find_matches w \<noteq> [] then
        (let i = (current_match_index w + 1) mod int (length (find_matches w))
         in jump_to_match (w\<lparr>current_match_index := i\<rparr>) i)
      else Some w)"

definition find_previous :: "main_window \<Rightarrow> main_window option" where
  "find_previous w =
     (if find_matches w = [] then perform_find w
      else if find_matches w \<noteq> [] then
        (let i = (current_match_index w - 1) mod int (length (find_matches w))
         in jump_to_match (w\<lparr>current_match_index := i\<rparr>) i)
      else Some w)"

section \<open>ui/main_window.py: the find and replace dialog\<close>

record find_replace_dialog =
  dialog_find_input :: string
  replace_input :: string
  case_sensitive :: bool
  whole_words :: bool
  wrap_around :: bool

text \<open>
  The dialog's handlers get the dialog and the editor it was opened on; of the main
  window they use the status bar only. Their state is the editor and the message shown.
\<close>

definition dialog_find_next :: "find_replace_dialog \<Rightarrow> editor \<times> message \<Rightarrow> editor \<times> message" where
  "dialog_find_next dialog st =
     (case st of (editor, msg) \<Rightarrow>
        let search_text = dialog_find_input dialog in
        if search_text = [] then (editor, msg)
        else
          let flags = \<lparr>find_case_sensitively = case_sensitive dialog,
                       find_whole_words = whole_words dialog\<rparr>;
              cursor = text_cursor editor;
              found_cursor = document_find (document editor) search_text cursor flags;
              found_cursor =
                (if found_cursor = None \<and> wrap_around dialog then
                   document_find (document editor) search_text
                     (set_position (document editor) cursor 0 MoveAnchor) flags
                 else found_cursor)
          in case found_cursor of
               Some c \<Rightarrow> (editor\<lparr>text_cursor := c\<rparr>, msg)
             | None \<Rightarrow> (editor, NoMoreMatches))"

text \<open>
  \<open>dialog_replace\<close> inserts through a copy of the editor's cursor; the toolkit moves the
  editor's own cursor with the edit, to the end of the inserted text.
\<close>

definition dialog_replace :: "find_replace_dialog \<Rightarrow> editor \<times> message \<Rightarrow> editor \<times> message" where
  "dialog_replace dialog st =
     (case st of (editor, msg) \<Rightarrow>
        let search_text = dialog_find_input dialog;
            replace_text = replace_input dialog
        in if search_text = [] then (editor, msg)
           else
             let cursor = text_cursor editor;
                 st =
                   (if has_selection cursor
                       \<and> selected_text (document editor) cursor = Some search_text
                    then
                      (case insert_text (document editor) cursor replace_text of
                         (doc, cursor) \<Rightarrow>
                           (editor\<lparr>document := doc, text_cursor := cursor\<rparr>, ReplacedOne))
                    else (editor, msg))
             in dialog_find_next dialog st)"

function replace_loop ::
  "string \<Rightarrow> string \<Rightarrow> string \<Rightarrow> find_flags \<Rightarrow> text_cursor \<Rightarrow> nat \<Rightarrow> string \<times> nat" where
  "replace_loop doc search_text replace_text flags cursor count =
     (case document_find doc search_text cursor flags of
        None \<Rightarrow> (doc, count)
      | Some c \<Rightarrow>
          (case insert_text doc c replace_text of
             (doc', c') \<Rightarrow> replace_loop doc' search_text replace_text flags c' (count + 1)))"
  by pat_completeness auto
termination
proof (relation "measure (\<lambda>(doc, search_text, replace_text, flags, cursor, count).
                   length doc - selection_end cursor)")
  show "wf (measure (\<lambda>(doc, search_text, replace_text, flags, cursor, count).
                   length doc - selection_end cursor))"
    by simp
next
  fix doc search_text replace_text doc' :: string and flags :: find_flags
    and cursor c c' :: text_cursor and count :: nat
  assume found: "document_find doc search_text cursor flags = Some c"
    and ins: "(doc', c') = insert_text doc c replace_text"
  have "selection_start c \<le> selection_end c"
    by (simp add: selection_start_def selection_end_def)
  moreover from document_find_advances [OF found]
  have "selection_end cursor < selection_end c" "selection_end c \<le> length doc"
    by simp_all
  moreover from ins have "length doc' - selection_end c' = length doc - selection_end c"
    using \<open>selection_end c \<le> length doc\<close> \<open>selection_start c \<le> selection_end c\<close>
    by (simp add: insert_text_def selection_end_def)
  ultimately
  show "((doc', search_text, replace_text, flags, c', count + 1),
         (doc, search_text, replace_text, flags, cursor, count))
      \<in> measure (\<lambda>(doc, search_text, replace_text, flags, cursor, count).
                   length doc - selection_end cursor)"
    by (simp; arith)
qed

declare replace_loop.simps [simp del]

text \<open>
  \<open>dialog_replace_all\<close> works through a cursor of its own on the document; its state is
  the document's text and the message shown.
\<close>

definition dialog_replace_all :: "find_replace_dialog \<Rightarrow> string \<times> message \<Rightarrow> string \<times> message" where
  "dialog_replace_all dialog st =
     (case st of (doc, msg) \<Rightarrow>
        let search_text = dialog_find_input dialog;
            replace_text = replace_input dialog
        in if search_text = [] then (doc, msg)
           else
             let flags = \<lparr>find_case_sensitively = case_sensitive dialog,
                          find_whole_words = whole_words dialog\<rparr>;
                 cursor = set_position doc \<lparr>anchor = 0, position = 0\<rparr> 0 MoveAnchor
             in case replace_loop doc search_text replace_text flags cursor 0 of
                  (doc', count) \<Rightarrow> (doc', ReplacedOccurrences count))"

section \<open>core/spell_checker.py\<close>

text \<open>
  The dictionary is the spelling library's; \<open>spell\<close> is its test of a lower-case word
  (\<open>None\<close> when the library failed to load).
\<close>

record spell_checker =
  spell :: "(string \<Rightarrow> bool) option"
  enabled :: bool

definition isalpha :: "string \<Rightarrow> bool" where
  \<comment> \<open>\<open>str.isalpha()\<close>: at least one character, all of them letters\<close>
  "isalpha w = (w \<noteq> [] \<and> list_all is_alpha w)"

definition check_word :: "spell_checker \<Rightarrow> string \<Rightarrow> bool" where
  "check_word sc word =
     (case spell sc of
        None \<Rightarrow> True
      | Some known \<Rightarrow>
          if \<not> enabled sc \<or> word = [] then True
          else if \<not> isalpha word then True
          else known (map to_lower word))"

text \<open>
  The matches of the pattern \<open>\b[a-zA-Z]+\b\<close>, as \<open>re.finditer\<close> finds them: at a
  position with a word boundary the longest run of letters that also ends at a word
  boundary (shorter runs are tried in turn); the scan goes on at the end of a match, and
  one character further where nothing matches.
\<close>

definition word_boundary :: "string \<Rightarrow> nat \<Rightarrow> bool" where
  "word_boundary s i =
     ((0 < i \<and> i \<le> length s \<and> is_word_char (s ! (i - 1)))
        \<noteq> (i < length s \<and> is_word_char (s ! i)))"

definition match_at :: "string \<Rightarrow> nat \<Rightarrow> nat option" where
  "match_at s i =
     (if word_boundary s i then
        find (word_boundary s)
          (rev [i + 1 ..< i + 1 + length (takeWhile is_letter (drop i s))])
      else None)"

lemma find_Some_member: "find P xs = Some x \<Longrightarrow> x \<in> set xs"
  by (induction xs) (auto split: if_splits)

lemma match_at_bounds:
  assumes "match_at s i = Some e"
  shows "i < e \<and> e \<le> i + length (takeWhile is_letter (drop i s))"
proof -
  from assms have "find (word_boundary s)
      (rev [i + 1 ..< i + 1 + length (takeWhile is_letter (drop i s))]) = Some e"
    by (simp add: match_at_def split: if_splits)
  then have "e \<in> set (rev [i + 1 ..< i + 1 + length (takeWhile is_letter (drop i s))])"
    by (rule find_Some_member)
  then show ?thesis by auto
qed

function finditer :: "string \<Rightarrow> nat \<Rightarrow> (nat \<times> nat) list" where
  "finditer s pos =
     (if length s < pos then []
      else case match_at s pos of
             Some e \<Rightarrow> (pos, e) # finditer s e
           | None \<Rightarrow> finditer s (pos + 1))"
  by pat_completeness auto
termination
proof (relation "measure (\<lambda>(s, pos). Suc (length s) - pos)")
  show "wf (measure (\<lambda>(s, pos). Suc (length s) - pos))" by simp
next
  fix s :: string and pos :: nat
  assume "\<not> length s < pos"
  then show "((s, pos + 1), (s, pos)) \<in> measure (\<lambda>(s, pos). Suc (length s) - pos)"
    by simp
next
  fix s :: string and pos e :: nat
  assume "\<not> length s < pos" "match_at s pos = Some e"
  with match_at_bounds [of s pos e]
  show "((s, e), (s, pos)) \<in> measure (\<lambda>(s, pos). Suc (length s) - pos)"
    by (simp; arith)
qed

declare finditer.simps [simp del]

definition find_misspelled_words :: "spell_checker \<Rightarrow> string \<Rightarrow> (string \<times> nat \<times> nat) list" where
  "find_misspelled_words sc s =
     (if \<not> enabled sc \<or> spell sc = None \<or> s = [] then []
      else
        filter (\<lambda>(word, start, end). \<not> check_word sc word)
          (map (\<lambda>(start, end). (take (end - start) (drop start s), start, end))
             (finditer s 0)))"

section \<open>Example states\<close>

text \<open>A main window with one editor on a document, nothing searched yet.\<close>

definition window0 :: "string \<Rightarrow> string \<Rightarrow> bool \<Rightarrow> main_window" where
  "window0 doc input cs =
     \<lparr>current_editor = Some \<lparr>document = doc, text_cursor = \<lparr>anchor = 0, position = 0\<rparr>\<rparr>,
      extra_selections = [], find_input = input, find_case_sensitive = cs,
      find_matches = [], current_match_index = - 1, status_message = NoMessage\<rparr>"

text \<open>The window after a search of \<open>abcabcabc\<close> for \<open>abc\<close>, standing on the last of the
  three matches.\<close>

definition window1 :: main_window where
  "window1 = (window0 ''abcabcabc'' ''abc'' True)
     \<lparr>current_editor :=
        Some \<lparr>document = ''abcabcabc'', text_cursor = \<lparr>anchor = 6, position = 9\<rparr>\<rparr>,
      extra_selections := [\<lparr>anchor = 0, position = 3\<rparr>, \<lparr>anchor = 3, position = 6\<rparr>,
                           \<lparr>anchor = 6, position = 9\<rparr>],
      find_matches := [0, 3, 6], current_match_index := 2\<rparr>"

text \<open>A dialog with its two inputs and its case and whole-word options set.\<close>

definition dialog0 :: "string \<Rightarrow> string \<Rightarrow> bool \<Rightarrow> bool \<Rightarrow> find_replace_dialog" where
  "dialog0 search_text replace_text cs ww =
     \<lparr>dialog_find_input = search_text, replace_input = replace_text,
      case_sensitive = cs, whole_words = ww, wrap_around = True\<rparr>"

text \<open>The dialog with its two inputs exchanged: the second pass of the round trip.\<close>

definition swapped :: "find_replace_dialog \<Rightarrow> find_replace_dialog" where
  "swapped dialog =
     dialog\<lparr>dialog_find_input := replace_input dialog,
            replace_input := dialog_find_input dialog\<rparr>"

text \<open>A spell checker whose dictionary holds two words.\<close>

definition checker0 :: spell_checker where
  "checker0 = \<lparr>spell = Some (\<lambda>w. w = ''the'' \<or> w = ''cat''), enabled = True\<rparr>"

section \<open>Texts that end in a letter or a digit\<close>

text \<open>A text that ends in a letter or a digit: what the whole-word test of a search
  that starts right behind the text sees before its first candidate.\<close>

definition ends_in_letter_or_number :: "string \<Rightarrow> bool" where
  "ends_in_letter_or_number s = (s \<noteq> [] \<and> is_letter_or_number (last s))"

section \<open>Replace-all as the specification describes it\<close>



section \<open>Matches and advancing, as the specification speaks of them\<close>

text \<open>
  What the claims call a match, said without the search: the text occurs at an offset of
  the document if the characters there are the text's, as the search compares them (a
  no-break space of the document read as a blank, letters up to case unless the case
  option is set); no text with a line break in it occurs. It stands as a whole word
  there if no letter or number is next to it.
\<close>

definition occurs_at :: "bool \<Rightarrow> string \<Rightarrow> string \<Rightarrow> nat \<Rightarrow> bool" where
  "occurs_at cs sub doc a =
     (newline \<notin> set sub \<and> a + length sub \<le> length doc
      \<and> fold_case cs (blank_nbsp (take (length sub) (drop a doc))) = fold_case cs sub)"





text \<open>
  The offsets at which a text occurs in a document, in ascending order; and a text with a
  border: a proper prefix of it, not empty, that is also its suffix (\<open>aa\<close>, \<open>abcab\<close>).
\<close>

definition occurrences :: "bool \<Rightarrow> string \<Rightarrow> string \<Rightarrow> nat list" where
  "occurrences cs sub doc = filter (occurs_at cs sub doc) [0..<Suc (length doc)]"

definition bordered :: "string \<Rightarrow> bool" where
  "bordered s = list_ex (\<lambda>k. take k s = drop (length s - k) s) [1..<length s]"

section \<open>Line and column of an offset\<close>

lemma str_count_filter: "str_count xs c = length (filter (\<lambda>x. x = c) xs)"
  by (induction xs) simp_all

lemma str_rfind_absent: "c \<notin> set xs \<Longrightarrow> str_rfind xs c = - 1"
  by (induction xs) (auto simp: Let_def)

lemma str_rfind_range: "- 1 \<le> str_rfind xs c \<and> str_rfind xs c < int (length xs)"
  by (induction xs) (auto simp: Let_def)

lemma str_rfind_last:
  "i < length xs \<Longrightarrow> xs ! i = c \<Longrightarrow> \<forall>j. i < j \<and> j < length xs \<longrightarrow> xs ! j \<noteq> c
     \<Longrightarrow> str_rfind xs c = int i"
proof (induction xs arbitrary: i)
  case Nil
  then show ?case by simp
next
  case (Cons x xs)
  show ?case
  proof (cases i)
    case 0
    have "c \<notin> set xs"
    proof
      assume "c \<in> set xs"
      then obtain k where k: "k < length xs" "xs ! k = c"
        by (auto simp: in_set_conv_nth)
      with Cons.prems(3) 0 have "(x # xs) ! Suc k \<noteq> c" by auto
      with k show False by simp
    qed
    with Cons.prems 0 show ?thesis by (simp add: str_rfind_absent)
  next
    case (Suc k)
    have "\<forall>j. k < j \<and> j < length xs \<longrightarrow> xs ! j \<noteq> c"
    proof (intro allI impI)
      fix j assume "k < j \<and> j < length xs"
      with Cons.prems(3) Suc have "(x # xs) ! Suc j \<noteq> c" by auto
      then show "xs ! j \<noteq> c" by simp
    qed
    with Cons.IH [of k] Cons.prems Suc have "str_rfind xs c = int k" by simp
    then show ?thesis using Suc by (simp add: Let_def)
  qed
qed

lemma clamp_offset_degenerate:
  "text = [] \<or> offset < 0 \<Longrightarrow> clamp_offset text offset = 0"
  by (auto simp: clamp_offset_def)

lemma get_line_col_degenerate:
  "text = [] \<or> offset < 0 \<Longrightarrow> get_line_col text offset = (1, 1)"
  by (auto simp: get_line_col_def)

lemma get_line_col_regular:
  assumes "text \<noteq> []" "0 \<le> offset"
  shows "get_line_col text offset =
    (int (str_count (take (clamp_offset text offset) text) newline) + 1,
     if str_rfind (take (clamp_offset text offset) text) newline = - 1
     then int (clamp_offset text offset) + 1
     else int (clamp_offset text offset) - str_rfind (take (clamp_offset text offset) text) newline)"
proof -
  have "max 0 (min offset (int (length text))) = min offset (int (length text))"
    using assms by simp
  then have "int (clamp_offset text offset) = min offset (int (length text))"
    using assms by (simp add: clamp_offset_def)
  moreover have "nat (min offset (int (length text))) = clamp_offset text offset"
    using assms by (simp add: clamp_offset_def)
  ultimately show ?thesis using assms
    by (simp add: get_line_col_def Let_def)
qed

lemma get_line_col_fst:
  "fst (get_line_col text offset) =
     int (length (filter (\<lambda>c. c = newline) (take (clamp_offset text offset) text))) + 1"
proof (cases "text = [] \<or> offset < 0")
  case True
  then show ?thesis
    by (simp add: get_line_col_degenerate clamp_offset_degenerate)
next
  case False
  then show ?thesis by (simp add: get_line_col_regular str_count_filter)
qed

lemma get_line_col_snd_absent:
  assumes "newline \<notin> set (take (clamp_offset text offset) text)"
  shows "snd (get_line_col text offset) = int (clamp_offset text offset) + 1"
proof (cases "text = [] \<or> offset < 0")
  case True
  then show ?thesis
    by (simp add: get_line_col_degenerate clamp_offset_degenerate)
next
  case False
  then show ?thesis using assms by (simp add: get_line_col_regular str_rfind_absent)
qed

lemma get_line_col_snd_present:
  assumes "i < clamp_offset text offset" "text ! i = newline"
    "\<forall>j. i < j \<and> j < clamp_offset text offset \<longrightarrow> text ! j \<noteq> newline"
  shows "snd (get_line_col text offset) = int (clamp_offset text offset) - int i"
proof -
  let ?off = "clamp_offset text offset"
  from assms(1) have reg: "text \<noteq> []" "0 \<le> offset"
    using clamp_offset_degenerate [of "text" offset] by (cases "text = []"; cases "offset < 0"; simp)+
  have le: "?off \<le> length text" by (simp add: clamp_offset_def)
  then have len: "length (take ?off text) = ?off" by simp
  have "str_rfind (take ?off text) newline = int i"
    using assms len by (intro str_rfind_last) auto
  then show ?thesis using reg by (simp add: get_line_col_regular)
qed

lemma get_line_col_snd_pos: "1 \<le> snd (get_line_col text offset)"
proof (cases "text = [] \<or> offset < 0")
  case True
  then show ?thesis by (simp add: get_line_col_degenerate)
next
  case False
  have "str_rfind (take (clamp_offset text offset) text) newline < int (clamp_offset text offset)"
    using str_rfind_range [of "take (clamp_offset text offset) text" newline]
    by (simp add: clamp_offset_def)
  then show ?thesis using False by (simp add: get_line_col_regular)
qed

lemma get_line_col_scenario:
  "get_line_col (''line1'' @ [newline] @ ''line2'' @ [newline] @ ''line3'') 7 = (2, 2)"
  by (simp add: get_line_col_def Let_def newline_def)

text \<open>
  Claim C5. With the offset clamped to \<open>[0, length text]\<close>, the line of
  \<open>get_line_col\<close> is the number of newlines before the offset plus one; the column is
  the offset minus the index of the last newline before it, or the offset plus one when
  no newline precedes it. A negative offset and an empty text give \<open>(1, 1)\<close>, the
  column is at least 1, and offset 7 of the three-line text is line 2, column 2.
\<close>

theorem get_line_col_clamped:
  "(let off = clamp_offset text offset in
      fst (get_line_col text offset)
        = int (length (filter (\<lambda>c. c = newline) (take off text))) + 1
    \<and> (\<forall>i. i < off \<and> text ! i = newline \<and> (\<forall>j. i < j \<and> j < off \<longrightarrow> text ! j \<noteq> newline)
           \<longrightarrow> snd (get_line_col text offset) = int off - int i)
    \<and> (newline \<notin> set (take off text) \<longrightarrow> snd (get_line_col text offset) = int off + 1))
   \<and> (offset < 0 \<or> text = [] \<longrightarrow> get_line_col text offset = (1, 1))
   \<and> 1 \<le> snd (get_line_col text offset)
   \<and> get_line_col (''line1'' @ [newline] @ ''line2'' @ [newline] @ ''line3'') 7 = (2, 2)"
  using get_line_col_fst [of "text" offset] get_line_col_snd_absent [of "text" offset]
    get_line_col_snd_present [of _ "text" offset]
    get_line_col_snd_pos [of "text" offset] get_line_col_scenario
    get_line_col_degenerate [of "text" offset]
  unfolding Let_def by blast

theorem get_line_col_clamped_witness:
  "get_line_col (''line1'' @ [newline] @ ''line2'' @ [newline] @ ''line3'') 7 = (2, 7 - 5)
   \<and> get_line_col ''line1'' 99 = (1, 5 + 1)
   \<and> get_line_col ''line1'' (- 4) = (1, 1)
   \<and> get_line_col [] 3 = (1, 1)"
proof -
  let ?t = "''line1'' @ [newline] @ ''line2'' @ [newline] @ ''line3''"
  have a: "\<forall>j. (5::nat) < j \<and> j < 7 \<longrightarrow> ?t ! j \<noteq> newline"
  proof (intro allI impI)
    fix j :: nat assume "5 < j \<and> j < 7"
    then have "j = 6" by arith
    then show "?t ! j \<noteq> newline" by (simp add: newline_def)
  qed
  have "snd (get_line_col ?t 7) = 7 - 5" "fst (get_line_col ?t 7) = 2"
    using get_line_col_clamped [of ?t 7] a by (simp_all add: Let_def newline_def clamp_offset_def)
  then have 1: "get_line_col ?t 7 = (2, 7 - 5)" by (simp add: prod_eq_iff)
  have "snd (get_line_col ''line1'' 99) = 5 + 1" "fst (get_line_col ''line1'' 99) = 1"
    using get_line_col_clamped [of "''line1''" 99] by (simp_all add: Let_def newline_def clamp_offset_def)
  then have 2: "get_line_col ''line1'' 99 = (1, 5 + 1)" by (simp add: prod_eq_iff)
  have 3: "get_line_col ''line1'' (- 4) = (1, 1)"
    using get_line_col_clamped [of "''line1''" "- 4"] by simp
  have 4: "get_line_col [] 3 = (1, 1)"
    using get_line_col_clamped [of "[]" 3] by simp
  from 1 2 3 4 show ?thesis by blast
qed

section \<open>The matches of the find bar\<close>

lemma find_loop_None:
  "document_find doc search_text cursor flags = None \<Longrightarrow> find_loop doc search_text flags cursor = []"
  by (subst find_loop.simps) simp

lemma find_loop_Some:
  "document_find doc search_text cursor flags = Some c
     \<Longrightarrow> find_loop doc search_text flags cursor = c # find_loop doc search_text flags c"
  by (subst find_loop.simps) simp

lemma find_loop_member:
  "c \<in> set (find_loop doc search_text flags cursor)
     \<Longrightarrow> search_text \<noteq> [] \<and> selection_end cursor \<le> selection_start c
         \<and> selection_end c = selection_start c + length search_text
         \<and> selection_end c \<le> length doc"
proof (induction doc search_text flags cursor rule: find_loop.induct)
  case (1 doc search_text flags cursor)
  show ?case
  proof (cases "document_find doc search_text cursor flags")
    case None
    with "1.prems" show ?thesis by (simp add: find_loop_None)
  next
    case (Some c0)
    note b = document_find_bounds [OF Some] document_find_advances [OF Some]
    from "1.prems" Some have "c = c0 \<or> c \<in> set (find_loop doc search_text flags c0)"
      by (simp add: find_loop_Some)
    then show ?thesis
    proof
      assume "c = c0"
      with b show ?thesis by simp
    next
      assume "c \<in> set (find_loop doc search_text flags c0)"
      from "1.IH" [OF Some this] b show ?thesis by simp
    qed
  qed
qed

lemma find_loop_disjoint:
  "sorted_wrt (\<lambda>a b. selection_end a \<le> selection_start b) (find_loop doc search_text flags cursor)"
proof (induction doc search_text flags cursor rule: find_loop.induct)
  case (1 doc search_text flags cursor)
  show ?case
  proof (cases "document_find doc search_text cursor flags")
    case None
    then show ?thesis by (simp add: find_loop_None)
  next
    case (Some c0)
    have "\<forall>c \<in> set (find_loop doc search_text flags c0). selection_end c0 \<le> selection_start c"
      using find_loop_member by blast
    with "1.IH" [OF Some] Some show ?thesis
      by (simp add: find_loop_Some)
  qed
qed

lemma find_loop_ascending:
  "sorted_wrt (<) (map selection_start (find_loop doc search_text flags cursor))"
proof -
  have "sorted_wrt (\<lambda>a b. selection_start a < selection_start b)
          (find_loop doc search_text flags cursor)"
  proof (rule sorted_wrt_mono_rel [OF _ find_loop_disjoint])
    fix a b
    assume "a \<in> set (find_loop doc search_text flags cursor)"
      and "selection_end a \<le> selection_start b"
    with find_loop_member [of a doc search_text flags cursor]
    show "selection_start a < selection_start b" by (cases search_text) auto
  qed
  then show ?thesis by (simp add: sorted_wrt_map)
qed

lemma find_loop_scenario:
  "find_loop ''abcabcabc'' ''abcabc'' \<lparr>find_case_sensitively = cs, find_whole_words = False\<rparr> \<lparr>anchor = 0, position = 0\<rparr>
     = [\<lparr>anchor = 0, position = 6\<rparr>]"
proof (cases cs)
  case True
  have "find_loop ''abcabcabc'' ''abcabc''
      \<lparr>find_case_sensitively = True, find_whole_words = False\<rparr> \<lparr>anchor = 0, position = 0\<rparr>
     = [\<lparr>anchor = 0, position = 6\<rparr>]"
    by code_simp
  with True show ?thesis by simp
next
  case False
  have "find_loop ''abcabcabc'' ''abcabc''
      \<lparr>find_case_sensitively = False, find_whole_words = False\<rparr> \<lparr>anchor = 0, position = 0\<rparr>
     = [\<lparr>anchor = 0, position = 6\<rparr>]"
    by code_simp
  with False show ?thesis by simp
qed

lemma py_index_0: "xs \<noteq> [] \<Longrightarrow> py_index xs 0 = Some (xs ! 0)"
  by (simp add: py_index_def)

lemma perform_find_searching:
  assumes "current_editor w = Some ed" "strip (find_input w) \<noteq> []"
  shows "\<exists>w'. perform_find w = Some w'
           \<and> extra_selections w' =
               find_loop (document ed) (strip (find_input w))
                 \<lparr>find_case_sensitively = find_case_sensitive w, find_whole_words = False\<rparr>
                 \<lparr>anchor = 0, position = 0\<rparr>
           \<and> find_matches w' = map selection_start (extra_selections w')
           \<and> current_match_index w' = (if find_matches w' = [] then - 1 else 0)"
  using assms
  by (auto simp: perform_find_def Let_def jump_to_match_def py_index_0)

text \<open>
  Claim C1. After a search of the find bar for a term that is not blank, the highlighted
  spans are pairwise disjoint and ascending: each span ends where the next begins or
  before, the match positions are strictly increasing, and every span has the length of
  the term and lies in the document. The loop gives disjoint spans for every flag and
  start cursor. Searching \<open>abcabcabc\<close> for \<open>abcabc\<close> finds the one span \<open>(0, 6)\<close>.
\<close>

theorem perform_find_matches_disjoint:
  "(current_editor w = Some ed \<and> strip (find_input w) \<noteq> [] \<longrightarrow>
      (\<exists>w'. perform_find w = Some w'
         \<and> find_matches w' = map selection_start (extra_selections w')
         \<and> sorted_wrt (\<lambda>a b. selection_end a \<le> selection_start b) (extra_selections w')
         \<and> sorted_wrt (<) (find_matches w')
         \<and> (\<forall>c \<in> set (extra_selections w').
               selection_start c < selection_end c
               \<and> selection_end c = selection_start c + length (strip (find_input w))
               \<and> selection_end c \<le> length (document ed))))
   \<and> sorted_wrt (\<lambda>a b. selection_end a \<le> selection_start b)
        (find_loop doc search_text flags cursor)
   \<and> perform_find (window0 ''abcabcabc'' ''abcabc'' cs) =
       Some ((window0 ''abcabcabc'' ''abcabc'' cs)
         \<lparr>current_editor :=
            Some \<lparr>document = ''abcabcabc'', text_cursor = \<lparr>anchor = 0, position = 6\<rparr>\<rparr>,
          extra_selections := [\<lparr>anchor = 0, position = 6\<rparr>],
          find_matches := [0], current_match_index := 0,
          status_message := FoundMatches 1\<rparr>)"
proof (intro conjI impI)
  assume a: "current_editor w = Some ed \<and> strip (find_input w) \<noteq> []"
  let ?fl = "\<lparr>find_case_sensitively = find_case_sensitive w, find_whole_words = False\<rparr>"
  let ?found = "find_loop (document ed) (strip (find_input w)) ?fl \<lparr>anchor = 0, position = 0\<rparr>"
  from a perform_find_searching [of w ed] obtain w' where w': "perform_find w = Some w'"
    "extra_selections w' = ?found" "find_matches w' = map selection_start (extra_selections w')"
    by blast
  have "\<forall>c \<in> set ?found. selection_start c < selection_end c
          \<and> selection_end c = selection_start c + length (strip (find_input w))
          \<and> selection_end c \<le> length (document ed)"
  proof
    fix c assume "c \<in> set ?found"
    from find_loop_member [OF this] show "selection_start c < selection_end c
          \<and> selection_end c = selection_start c + length (strip (find_input w))
          \<and> selection_end c \<le> length (document ed)"
      by (cases "strip (find_input w)") auto
  qed
  with w' find_loop_disjoint [of "document ed" "strip (find_input w)" ?fl]
    find_loop_ascending [of "document ed" "strip (find_input w)" ?fl]
  show "\<exists>w'. perform_find w = Some w'
         \<and> find_matches w' = map selection_start (extra_selections w')
         \<and> sorted_wrt (\<lambda>a b. selection_end a \<le> selection_start b) (extra_selections w')
         \<and> sorted_wrt (<) (find_matches w')
         \<and> (\<forall>c \<in> set (extra_selections w').
               selection_start c < selection_end c
               \<and> selection_end c = selection_start c + length (strip (find_input w))
               \<and> selection_end c \<le> length (document ed))"
    by auto
next
  show "sorted_wrt (\<lambda>a b. selection_end a \<le> selection_start b)
        (find_loop doc search_text flags cursor)"
    by (rule find_loop_disjoint)
next
  have s: "strip ''abcabc'' = ''abcabc''" by code_simp
  show "perform_find (window0 ''abcabcabc'' ''abcabc'' cs) =
       Some ((window0 ''abcabcabc'' ''abcabc'' cs)
         \<lparr>current_editor :=
            Some \<lparr>document = ''abcabcabc'', text_cursor = \<lparr>anchor = 0, position = 6\<rparr>\<rparr>,
          extra_selections := [\<lparr>anchor = 0, position = 6\<rparr>],
          find_matches := [0], current_match_index := 0,
          status_message := FoundMatches 1\<rparr>)"
    by (simp add: perform_find_def window0_def s Let_def find_loop_scenario jump_to_match_def
        py_index_def selection_start_def set_position_def)
qed

theorem perform_find_matches_disjoint_witness:
  "current_editor (window0 ''abcabcabc'' '' abc '' True)
      = Some \<lparr>document = ''abcabcabc'', text_cursor = \<lparr>anchor = 0, position = 0\<rparr>\<rparr>
   \<and> strip (find_input (window0 ''abcabcabc'' '' abc '' True)) \<noteq> []
   \<and> (\<exists>w'. perform_find (window0 ''abcabcabc'' '' abc '' True) = Some w'
         \<and> find_matches w' = map selection_start (extra_selections w')
         \<and> sorted_wrt (\<lambda>a b. selection_end a \<le> selection_start b) (extra_selections w')
         \<and> sorted_wrt (<) (find_matches w'))
   \<and> strip [CHR 0xA0, CHR ''a'', CHR ''b'', CHR ''c'', CHR 0x85] = ''abc''
   \<and> map_option extra_selections
        (perform_find
           (window0 ''abcabcabc'' [CHR 0xA0, CHR ''a'', CHR ''b'', CHR ''c'', CHR 0x85] True))
       = Some [\<lparr>anchor = 0, position = 3\<rparr>, \<lparr>anchor = 3, position = 6\<rparr>,
               \<lparr>anchor = 6, position = 9\<rparr>]
   \<and> map_option find_matches
        (perform_find
           (window0 [CHR 0xC9, CHR ''t'', CHR 0xE9, CHR '' '', CHR 0xE9, CHR ''t'', CHR 0xE9,
                     CHR 0xA0, CHR ''x'']
              [CHR 0xE9, CHR ''T'', CHR 0xC9] False))
       = Some [0, 4]
   \<and> map_option find_matches
        (perform_find
           (window0 [CHR 0xC9, CHR ''t'', CHR 0xE9, CHR '' '', CHR 0xE9, CHR ''t'', CHR 0xE9,
                     CHR 0xA0, CHR ''x'']
              [CHR 0xE9, CHR ''T'', CHR 0xC9, CHR '' '', CHR ''X''] False))
       = Some [4]"
proof -
  have s: "strip '' abc '' = ''abc''" by code_simp
  have 1: "current_editor (window0 ''abcabcabc'' '' abc '' True)
      = Some \<lparr>document = ''abcabcabc'', text_cursor = \<lparr>anchor = 0, position = 0\<rparr>\<rparr>"
    by (simp add: window0_def)
  have 2: "strip (find_input (window0 ''abcabcabc'' '' abc '' True)) \<noteq> []"
    by (simp add: window0_def s)
  from 1 2 perform_find_matches_disjoint [of "window0 ''abcabcabc'' '' abc '' True"
      "\<lparr>document = ''abcabcabc'', text_cursor = \<lparr>anchor = 0, position = 0\<rparr>\<rparr>"]
  have 3: "\<exists>w'. perform_find (window0 ''abcabcabc'' '' abc '' True) = Some w'
         \<and> find_matches w' = map selection_start (extra_selections w')
         \<and> sorted_wrt (\<lambda>a b. selection_end a \<le> selection_start b) (extra_selections w')
         \<and> sorted_wrt (<) (find_matches w')"
    by blast
  have 4: "strip [CHR 0xA0, CHR ''a'', CHR ''b'', CHR ''c'', CHR 0x85] = ''abc''"
    by code_simp
  have 5: "map_option extra_selections
        (perform_find
           (window0 ''abcabcabc'' [CHR 0xA0, CHR ''a'', CHR ''b'', CHR ''c'', CHR 0x85] True))
       = Some [\<lparr>anchor = 0, position = 3\<rparr>, \<lparr>anchor = 3, position = 6\<rparr>,
               \<lparr>anchor = 6, position = 9\<rparr>]"
    by code_simp
  have 6: "map_option find_matches
        (perform_find
           (window0 [CHR 0xC9, CHR ''t'', CHR 0xE9, CHR '' '', CHR 0xE9, CHR ''t'', CHR 0xE9,
                     CHR 0xA0, CHR ''x'']
              [CHR 0xE9, CHR ''T'', CHR 0xC9] False))
       = Some [0, 4]"
    by code_simp
  have 7: "map_option find_matches
        (perform_find
           (window0 [CHR 0xC9, CHR ''t'', CHR 0xE9, CHR '' '', CHR 0xE9, CHR ''t'', CHR 0xE9,
                     CHR 0xA0, CHR ''x'']
              [CHR 0xE9, CHR ''T'', CHR 0xC9, CHR '' '', CHR ''X''] False))
       = Some [4]"
    by code_simp
  show ?thesis
    by (intro conjI 1 2 3 4 5 6 7)
qed

section \<open>Stepping through the matches\<close>

lemma py_index_in_range:
  "0 \<le> i \<Longrightarrow> i < int (length xs) \<Longrightarrow> py_index xs i = Some (xs ! nat i)"
  by (simp add: py_index_def)

lemma jump_to_match_in_range:
  assumes "0 \<le> i" "i < int (length (find_matches w))"
  shows "\<exists>w'. jump_to_match w i = Some w'
           \<and> current_match_index w' = current_match_index w
           \<and> find_matches w' = find_matches w
           \<and> extra_selections w' = extra_selections w"
  using assms
  by (cases "current_editor w") (auto simp: jump_to_match_def py_index_in_range Let_def)

lemma find_next_cycles:
  assumes "find_matches w \<noteq> []"
  shows "\<exists>w'. find_next w = Some w'
           \<and> current_match_index w' = (current_match_index w + 1) mod int (length (find_matches w))
           \<and> find_matches w' = find_matches w"
proof -
  let ?i = "(current_match_index w + 1) mod int (length (find_matches w))"
  from assms have "0 \<le> ?i" "?i < int (length (find_matches w))" by simp_all
  from jump_to_match_in_range [of ?i "w\<lparr>current_match_index := ?i\<rparr>"] this assms
  show ?thesis by (auto simp: find_next_def Let_def)
qed

lemma find_previous_cycles:
  assumes "find_matches w \<noteq> []"
  shows "\<exists>w'. find_previous w = Some w'
           \<and> current_match_index w' = (current_match_index w - 1) mod int (length (find_matches w))
           \<and> find_matches w' = find_matches w"
proof -
  let ?i = "(current_match_index w - 1) mod int (length (find_matches w))"
  from assms have "0 \<le> ?i" "?i < int (length (find_matches w))" by simp_all
  from jump_to_match_in_range [of ?i "w\<lparr>current_match_index := ?i\<rparr>"] this assms
  show ?thesis by (auto simp: find_previous_def Let_def)
qed

text \<open>
  Claim C6, as amended. On a match set that is not empty, \<open>find_next\<close> sets the current
  index to \<open>(current + 1) mod count\<close> (0 after the last match) and \<open>find_previous\<close> to
  \<open>(current - 1) mod count\<close> (the last match from index 0); the match set stays. On an
  empty match set both do what \<open>perform_find\<close> does: they search again for the entered
  term.
\<close>

theorem find_next_previous_cycle:
  "(find_matches w \<noteq> [] \<longrightarrow>
      (\<exists>w'. find_next w = Some w'
         \<and> current_match_index w'
             = (current_match_index w + 1) mod int (length (find_matches w))
         \<and> (current_match_index w = int (length (find_matches w)) - 1
              \<longrightarrow> current_match_index w' = 0)
         \<and> find_matches w' = find_matches w)
    \<and> (\<exists>w'. find_previous w = Some w'
         \<and> current_match_index w'
             = (current_match_index w - 1) mod int (length (find_matches w))
         \<and> (current_match_index w = 0
              \<longrightarrow> current_match_index w' = int (length (find_matches w)) - 1)
         \<and> find_matches w' = find_matches w))
   \<and> (find_matches w = [] \<longrightarrow> find_next w = perform_find w \<and> find_previous w = perform_find w)"
proof (intro conjI impI)
  assume ne: "find_matches w \<noteq> []"
  from find_next_cycles [OF ne] obtain w' where w': "find_next w = Some w'"
    "current_match_index w' = (current_match_index w + 1) mod int (length (find_matches w))"
    "find_matches w' = find_matches w" by blast
  then show "\<exists>w'. find_next w = Some w'
         \<and> current_match_index w'
             = (current_match_index w + 1) mod int (length (find_matches w))
         \<and> (current_match_index w = int (length (find_matches w)) - 1
              \<longrightarrow> current_match_index w' = 0)
         \<and> find_matches w' = find_matches w"
    by auto
next
  assume ne: "find_matches w \<noteq> []"
  then have pos: "0 < int (length (find_matches w))" by simp
  from find_previous_cycles [OF ne] obtain w' where w': "find_previous w = Some w'"
    "current_match_index w' = (current_match_index w - 1) mod int (length (find_matches w))"
    "find_matches w' = find_matches w" by blast
  have "(- 1) mod int (length (find_matches w)) = int (length (find_matches w)) - 1"
    using pos by (simp add: zmod_minus1)
  with w' show "\<exists>w'. find_previous w = Some w'
         \<and> current_match_index w'
             = (current_match_index w - 1) mod int (length (find_matches w))
         \<and> (current_match_index w = 0
              \<longrightarrow> current_match_index w' = int (length (find_matches w)) - 1)
         \<and> find_matches w' = find_matches w"
    by auto
next
  assume "find_matches w = []"
  then show "find_next w = perform_find w" by (simp add: find_next_def)
next
  assume "find_matches w = []"
  then show "find_previous w = perform_find w" by (simp add: find_previous_def)
qed

theorem find_next_previous_cycle_witness:
  "find_matches window1 \<noteq> []
   \<and> current_match_index window1 = int (length (find_matches window1)) - 1
   \<and> (\<exists>w'. find_next window1 = Some w' \<and> current_match_index w' = 0)
   \<and> (\<exists>w'. find_previous window1 = Some w' \<and> current_match_index w' = 1)
   \<and> current_match_index (window1\<lparr>current_match_index := 0\<rparr>) = 0
   \<and> (\<exists>w'. find_previous (window1\<lparr>current_match_index := 0\<rparr>) = Some w'
         \<and> current_match_index w' = 2)
   \<and> find_matches (window0 ''abc'' ''z'' False) = []
   \<and> find_next (window0 ''abc'' ''z'' False) = perform_find (window0 ''abc'' ''z'' False)
   \<and> find_previous (window0 ''abc'' ''z'' False) = perform_find (window0 ''abc'' ''z'' False)"
proof -
  have a: "find_matches window1 \<noteq> []" "length (find_matches window1) = 3"
    "current_match_index window1 = 2"
    by (simp_all add: window1_def)
  have b: "find_matches (window1\<lparr>current_match_index := 0\<rparr>) \<noteq> []"
    "length (find_matches (window1\<lparr>current_match_index := 0\<rparr>)) = 3"
    by (simp_all add: window1_def)
  have c: "find_matches (window0 ''abc'' ''z'' False) = []" by (simp add: window0_def)
  from find_next_previous_cycle [of window1] a
  have 1: "(\<exists>w'. find_next window1 = Some w' \<and> current_match_index w' = 0)"
    "(\<exists>w'. find_previous window1 = Some w' \<and> current_match_index w' = 1)"
    by auto
  from find_next_previous_cycle [of "window1\<lparr>current_match_index := 0\<rparr>"] b
  have 2: "\<exists>w'. find_previous (window1\<lparr>current_match_index := 0\<rparr>) = Some w'
         \<and> current_match_index w' = 2"
    by auto
  from find_next_previous_cycle [of "window0 ''abc'' ''z'' False"] c
  have 3: "find_next (window0 ''abc'' ''z'' False) = perform_find (window0 ''abc'' ''z'' False)"
    "find_previous (window0 ''abc'' ''z'' False) = perform_find (window0 ''abc'' ''z'' False)"
    by auto
  from a c 1 2 3 show ?thesis by simp
qed

lemma find_loop_b_in_abc:
  "find_loop ''abc'' ''b'' \<lparr>find_case_sensitively = False, find_whole_words = False\<rparr>
     \<lparr>anchor = 0, position = 0\<rparr> = [\<lparr>anchor = 1, position = 2\<rparr>]"
  by code_simp

theorem find_next_empty_counterexample:
  "find_matches (window0 ''abc'' ''b'' False) = []
   \<and> current_match_index (window0 ''abc'' ''b'' False) = - 1
   \<and> find_next (window0 ''abc'' ''b'' False) =
       Some \<lparr>current_editor =
               Some \<lparr>document = ''abc'', text_cursor = \<lparr>anchor = 1, position = 2\<rparr>\<rparr>,
             extra_selections = [\<lparr>anchor = 1, position = 2\<rparr>],
             find_input = ''b'', find_case_sensitive = False,
             find_matches = [1], current_match_index = 0,
             status_message = FoundMatches 1\<rparr>
   \<and> find_previous (window0 ''abc'' ''b'' False) = find_next (window0 ''abc'' ''b'' False)
   \<and> find_next (window0 ''abc'' ''b'' False) \<noteq> Some (window0 ''abc'' ''b'' False)"
proof -
  have s: "strip ''b'' = ''b''" by code_simp
  have "perform_find (window0 ''abc'' ''b'' False) =
      Some \<lparr>current_editor =
               Some \<lparr>document = ''abc'', text_cursor = \<lparr>anchor = 1, position = 2\<rparr>\<rparr>,
             extra_selections = [\<lparr>anchor = 1, position = 2\<rparr>],
             find_input = ''b'', find_case_sensitive = False,
             find_matches = [1], current_match_index = 0,
             status_message = FoundMatches 1\<rparr>"
    by (simp add: perform_find_def window0_def s Let_def find_loop_b_in_abc jump_to_match_def
        py_index_def selection_start_def set_position_def)
  then show ?thesis
    by (simp add: find_next_def find_previous_def) (simp add: window0_def)
qed

section \<open>A blank search term\<close>

lemma strip_blank: "strip s = [] \<longleftrightarrow> (\<forall>c \<in> set s. is_space c)"
proof
  assume "strip s = []"
  then have all: "\<forall>x \<in> set (dropWhile is_space s). is_space x"
    by (simp add: strip_def dropWhile_eq_Nil_conv)
  have "dropWhile is_space s = []"
  proof (rule ccontr)
    assume ne: "dropWhile is_space s \<noteq> []"
    then have "\<not> is_space (hd (dropWhile is_space s))" by (rule hd_dropWhile)
    moreover from ne have "hd (dropWhile is_space s) \<in> set (dropWhile is_space s)" by simp
    ultimately show False using all by blast
  qed
  then show "\<forall>c \<in> set s. is_space c" by (simp add: dropWhile_eq_Nil_conv)
next
  assume "\<forall>c \<in> set s. is_space c"
  then have "dropWhile is_space s = []" by (simp add: dropWhile_eq_Nil_conv)
  then show "strip s = []" by (simp only: strip_def rev.simps dropWhile.simps)
qed

text \<open>
  Claim C10. \<open>perform_find\<close> strips the entered term. A term that is empty or all
  whitespace starts no search: the match set, the current index, the highlights and the
  editor are as before. Any other term is searched for in its stripped form.
\<close>

theorem perform_find_blank_term:
  "(list_all is_space (find_input w) \<longrightarrow>
      (\<exists>w'. perform_find w = Some w'
         \<and> find_matches w' = find_matches w
         \<and> current_match_index w' = current_match_index w
         \<and> extra_selections w' = extra_selections w
         \<and> current_editor w' = current_editor w))
   \<and> (\<not> list_all is_space (find_input w) \<and> current_editor w = Some ed \<longrightarrow>
      (\<exists>w'. perform_find w = Some w'
         \<and> extra_selections w' =
             find_loop (document ed) (strip (find_input w))
               \<lparr>find_case_sensitively = find_case_sensitive w, find_whole_words = False\<rparr>
               \<lparr>anchor = 0, position = 0\<rparr>
         \<and> find_matches w' = map selection_start (extra_selections w')))"
proof (intro conjI impI)
  assume "list_all is_space (find_input w)"
  then have "strip (find_input w) = []" by (simp add: strip_blank list_all_iff)
  then show "\<exists>w'. perform_find w = Some w'
         \<and> find_matches w' = find_matches w
         \<and> current_match_index w' = current_match_index w
         \<and> extra_selections w' = extra_selections w
         \<and> current_editor w' = current_editor w"
    by (cases "current_editor w") (simp_all add: perform_find_def)
next
  assume "\<not> list_all is_space (find_input w) \<and> current_editor w = Some ed"
  then have "current_editor w = Some ed" "strip (find_input w) \<noteq> []"
    by (simp_all add: strip_blank list_all_iff)
  from perform_find_searching [OF this]
  show "\<exists>w'. perform_find w = Some w'
         \<and> extra_selections w' =
             find_loop (document ed) (strip (find_input w))
               \<lparr>find_case_sensitively = find_case_sensitive w, find_whole_words = False\<rparr>
               \<lparr>anchor = 0, position = 0\<rparr>
         \<and> find_matches w' = map selection_start (extra_selections w')"
    by blast
qed

theorem perform_find_blank_term_witness:
  "list_all is_space (find_input (window1\<lparr>find_input := [CHR 0xA0, CHR 0x09, CHR 0x85, CHR '' '']\<rparr>))
   \<and> (\<exists>w'. perform_find (window1\<lparr>find_input := [CHR 0xA0, CHR 0x09, CHR 0x85, CHR '' '']\<rparr>) = Some w'
         \<and> find_matches w' = [0, 3, 6]
         \<and> current_match_index w' = 2
         \<and> extra_selections w' = [\<lparr>anchor = 0, position = 3\<rparr>, \<lparr>anchor = 3, position = 6\<rparr>,
                           \<lparr>anchor = 6, position = 9\<rparr>])
   \<and> \<not> list_all is_space (find_input (window0 ''abc'' '' b '' False))
   \<and> (\<exists>w'. perform_find (window0 ''abc'' '' b '' False) = Some w'
         \<and> extra_selections w' = [\<lparr>anchor = 1, position = 2\<rparr>])"
proof -
  let ?w = "window1\<lparr>find_input := [CHR 0xA0, CHR 0x09, CHR 0x85, CHR '' '']\<rparr>"
  have "list_all is_space [CHR 0xA0, CHR 0x09, CHR 0x85, CHR '' '']" by code_simp
  then have h: "list_all is_space (find_input ?w)" by simp
  have f: "find_matches ?w = [0, 3, 6]" "current_match_index ?w = 2"
    "extra_selections ?w = [\<lparr>anchor = 0, position = 3\<rparr>, \<lparr>anchor = 3, position = 6\<rparr>,
                           \<lparr>anchor = 6, position = 9\<rparr>]"
    by (simp_all add: window1_def)
  from perform_find_blank_term [of ?w] h f
  have 1: "\<exists>w'. perform_find ?w = Some w'
         \<and> find_matches w' = [0, 3, 6]
         \<and> current_match_index w' = 2
         \<and> extra_selections w' = [\<lparr>anchor = 0, position = 3\<rparr>, \<lparr>anchor = 3, position = 6\<rparr>,
                           \<lparr>anchor = 6, position = 9\<rparr>]"
    by auto
  let ?v = "window0 ''abc'' '' b '' False"
  have s: "strip '' b '' = ''b''" by code_simp
  have "\<not> list_all is_space '' b ''" by code_simp
  then have g: "\<not> list_all is_space (find_input ?v)"
    by (simp add: window0_def)
  have e: "current_editor ?v = Some \<lparr>document = ''abc'', text_cursor = \<lparr>anchor = 0, position = 0\<rparr>\<rparr>"
    "find_input ?v = '' b ''" "find_case_sensitive ?v = False"
    by (simp_all add: window0_def)
  from perform_find_blank_term [of ?v "\<lparr>document = ''abc'', text_cursor = \<lparr>anchor = 0, position = 0\<rparr>\<rparr>"] g e
  have 2: "\<exists>w'. perform_find ?v = Some w'
         \<and> extra_selections w' = [\<lparr>anchor = 1, position = 2\<rparr>]"
    by (auto simp: s find_loop_b_in_abc)
  from h 1 g 2 show ?thesis by blast
qed

section \<open>Occurrences of a text\<close>

lemma fold_case_take [simp]: "fold_case cs (take n s) = take n (fold_case cs s)"
  by (simp add: fold_case_def take_map)

lemma fold_case_drop [simp]: "fold_case cs (drop n s) = drop n (fold_case cs s)"
  by (simp add: fold_case_def drop_map)

lemma fold_case_append [simp]: "fold_case cs (s @ s') = fold_case cs s @ fold_case cs s'"
  by (simp add: fold_case_def)

lemma length_fold_case [simp]: "length (fold_case cs s) = length s"
  by (simp add: fold_case_def)

lemma fold_case_Nil [simp]: "fold_case cs s = [] \<longleftrightarrow> s = []"
  by (simp add: fold_case_def)

lemma blank_nbsp_take [simp]: "blank_nbsp (take n s) = take n (blank_nbsp s)"
  by (simp add: blank_nbsp_def take_map)

lemma blank_nbsp_drop [simp]: "blank_nbsp (drop n s) = drop n (blank_nbsp s)"
  by (simp add: blank_nbsp_def drop_map)

lemma blank_nbsp_append [simp]: "blank_nbsp (s @ s') = blank_nbsp s @ blank_nbsp s'"
  by (simp add: blank_nbsp_def)

lemma blank_nbsp_Nil [simp]: "blank_nbsp s = [] \<longleftrightarrow> s = []"
  by (simp add: blank_nbsp_def)

lemma first_occurrence_prefix:
  "first_occurrence sub xs = Some i \<Longrightarrow> prefix sub (drop i xs)"
proof (induction xs arbitrary: i)
  case Nil
  then show ?case by (simp split: if_splits)
next
  case (Cons x xs)
  then show ?case by (auto split: if_splits)
qed

lemma first_occurrence_least:
  "first_occurrence sub xs = Some i \<Longrightarrow> j < i \<Longrightarrow> \<not> prefix sub (drop j xs)"
proof (induction xs arbitrary: i j)
  case Nil
  then show ?case by (simp split: if_splits)
next
  case (Cons x xs)
  show ?case
  proof (cases "prefix sub (x # xs)")
    case True
    with Cons.prems show ?thesis by simp
  next
    case False
    with Cons.prems obtain k where k: "first_occurrence sub xs = Some k" "i = Suc k"
      by auto
    show ?thesis
    proof (cases j)
      case 0
      with False show ?thesis by simp
    next
      case (Suc j')
      with Cons.IH [OF k(1), of j'] Cons.prems k show ?thesis by simp
    qed
  qed
qed

lemma first_occurrence_none:
  "first_occurrence sub xs = None \<Longrightarrow> j \<le> length xs \<Longrightarrow> \<not> prefix sub (drop j xs)"
proof (induction xs arbitrary: j)
  case Nil
  then show ?case by (simp split: if_splits)
next
  case (Cons x xs)
  from Cons.prems(1) have np: "\<not> prefix sub (x # xs)" and n: "first_occurrence sub xs = None"
    by (auto split: if_splits)
  show ?case
  proof (cases j)
    case 0
    with np show ?thesis by simp
  next
    case (Suc j')
    with Cons.IH [OF n, of j'] Cons.prems(2) show ?thesis by simp
  qed
qed

lemma first_occurrence_some:
  "prefix sub (drop j xs) \<Longrightarrow> j \<le> length xs \<Longrightarrow> \<exists>i. first_occurrence sub xs = Some i"
  using first_occurrence_none [of sub xs j] by (cases "first_occurrence sub xs") auto

lemma first_occurrence_split:
  "first_occurrence sub xs = Some i \<Longrightarrow> xs = take i xs @ sub @ drop (i + length sub) xs"
proof -
  assume a: "first_occurrence sub xs = Some i"
  from first_occurrence_prefix [OF a] obtain zs where zs: "drop i xs = sub @ zs"
    by (auto simp: prefix_def)
  then have "drop (i + length sub) xs = zs"
    by (metis add.commute append_eq_conv_conj drop_drop)
  with zs show ?thesis by (metis append_take_drop_id)
qed

text \<open>Occurrences, and what the index search answers.\<close>

lemma prefix_take_conv: "prefix p xs \<longleftrightarrow> length p \<le> length xs \<and> take (length p) xs = p"
  by (metis prefix_def append_eq_conv_conj prefix_length_le append_take_drop_id)

lemma occurs_at_prefix:
  assumes "newline \<notin> set sub" "q + j \<le> length doc"
  shows "occurs_at cs sub doc (q + j)
         \<longleftrightarrow> prefix (fold_case cs sub) (drop j (fold_case cs (drop q (blank_nbsp doc))))"
  using assms
  by (auto simp: occurs_at_def prefix_take_conv add.commute)

lemma occurs_at_bound: "occurs_at cs sub doc a \<Longrightarrow> a + length sub \<le> length doc"
  by (simp add: occurs_at_def)

lemma index_of_occurs:
  assumes "index_of cs sub (blank_nbsp doc) q = Some a" "newline \<notin> set sub"
  shows "q \<le> a \<and> occurs_at cs sub doc a \<and> (\<forall>b. q \<le> b \<and> b < a \<longrightarrow> \<not> occurs_at cs sub doc b)"
proof -
  from assms(1) obtain i where i: "a = q + i" "q \<le> length doc"
    "first_occurrence (fold_case cs sub) (fold_case cs (drop q (blank_nbsp doc))) = Some i"
    by (auto simp: index_of_def split: if_splits)
  from index_of_bounds [OF assms(1)] have b: "a + length sub \<le> length doc" by simp
  then have le: "q + i \<le> length doc" using i(1) by simp
  have 1: "occurs_at cs sub doc a"
    using first_occurrence_prefix [OF i(3)] occurs_at_prefix [OF assms(2) le, of cs] i(1)
    by simp
  have 2: "\<not> occurs_at cs sub doc b" if "q \<le> b" "b < a" for b
  proof -
    from that i(1) have j: "b - q < i" "b = q + (b - q)" by simp_all
    from j(2) le that i(1) have "q + (b - q) \<le> length doc" by simp
    from occurs_at_prefix [OF assms(2) this, of cs] first_occurrence_least [OF i(3) j(1)] j(2)
    show ?thesis by simp
  qed
  from i(1) 1 2 show ?thesis by simp
qed



section \<open>Where the search of the dialog goes\<close>


lemma find_from_step:
  assumes "index_of (find_case_sensitively flags) sub s offset = Some idx"
  shows "find_from flags sub s offset =
     (if find_whole_words flags
         \<and> ((idx \<noteq> 0 \<and> is_letter_or_number (s ! (idx - 1)))
            \<or> (idx + length sub \<noteq> length s \<and> is_letter_or_number (s ! (idx + length sub))))
      then find_from flags sub s (idx + length sub + 1)
      else Some idx)"
proof -
  from assms have "\<not> length s < offset"
    by (simp add: index_of_def split: if_splits)
  with assms show ?thesis by (subst find_from.simps) simp
qed

lemma find_from_no_index:
  "index_of (find_case_sensitively flags) sub s offset = None \<Longrightarrow> find_from flags sub s offset = None"
  by (subst find_from.simps) simp

lemma find_from_accepted:
  "find_from flags sub s offset = Some idx \<Longrightarrow>
     (\<exists>offset'. offset \<le> offset'
         \<and> index_of (find_case_sensitively flags) sub s offset' = Some idx)
     \<and> (find_whole_words flags \<longrightarrow>
           \<not> (idx \<noteq> 0 \<and> is_letter_or_number (s ! (idx - 1)))
           \<and> \<not> (idx + length sub \<noteq> length s \<and> is_letter_or_number (s ! (idx + length sub))))"
proof (induction flags sub s offset rule: find_from.induct)
  case (1 flags sub s offset)
  show ?case
  proof (cases "index_of (find_case_sensitively flags) sub s offset")
    case None
    with "1.prems" show ?thesis by (simp add: find_from_no_index)
  next
    case (Some i)
    let ?rej = "find_whole_words flags
         \<and> ((i \<noteq> 0 \<and> is_letter_or_number (s ! (i - 1)))
            \<or> (i + length sub \<noteq> length s \<and> is_letter_or_number (s ! (i + length sub))))"
    from Some have le: "\<not> length s < offset" by (simp add: index_of_def split: if_splits)
    from index_of_bounds [OF Some] have oi: "offset \<le> i" by simp
    show ?thesis
    proof (cases ?rej)
      case True
      with "1.prems" have "find_from flags sub s (i + length sub + 1) = Some idx"
        using trans [OF find_from_step [OF Some] if_P [OF True], symmetric] by simp
      from "1.IH" [OF le Some True this] obtain offset' where
        "i + length sub + 1 \<le> offset'"
        "index_of (find_case_sensitively flags) sub s offset' = Some idx"
        and w: "find_whole_words flags \<longrightarrow>
           \<not> (idx \<noteq> 0 \<and> is_letter_or_number (s ! (idx - 1)))
           \<and> \<not> (idx + length sub \<noteq> length s \<and> is_letter_or_number (s ! (idx + length sub)))"
        by blast
      with oi have "offset \<le> offset'
         \<and> index_of (find_case_sensitively flags) sub s offset' = Some idx" by simp
      with w show ?thesis by blast
    next
      case False
      with "1.prems" have "idx = i"
        using trans [OF find_from_step [OF Some] if_not_P [OF False], symmetric] by simp
      with Some False show ?thesis by auto
    qed
  qed
qed

lemma blank_not_letter_or_number: "\<not> is_letter_or_number blank"
  by code_simp

lemma is_letter_or_number_blank_nbsp:
  "k < length s \<Longrightarrow> is_letter_or_number (blank_nbsp s ! k) = is_letter_or_number (s ! k)"
proof -
  have "\<not> is_letter_or_number nbsp" by code_simp
  then show "k < length s \<Longrightarrow> ?thesis"
    by (simp add: blank_nbsp_def blank_not_letter_or_number)
qed







section \<open>Replacing the selection\<close>

lemma dialog_find_next_document:
  "document (fst (dialog_find_next dialog (editor, msg))) = document editor"
  by (simp add: dialog_find_next_def Let_def split: option.splits)

lemma dialog_replace_mismatch:
  assumes "dialog_find_input dialog \<noteq> []"
    and "\<not> (has_selection (text_cursor editor)
            \<and> selected_text (document editor) (text_cursor editor)
                = Some (dialog_find_input dialog))"
  shows "dialog_replace dialog (editor, msg) = dialog_find_next dialog (editor, msg)"
  using assms by (auto simp: dialog_replace_def Let_def)

lemma dialog_replace_match:
  assumes "dialog_find_input dialog \<noteq> []"
    and "has_selection (text_cursor editor)"
    and "selected_text (document editor) (text_cursor editor) = Some (dialog_find_input dialog)"
  shows "dialog_replace dialog (editor, msg) =
           dialog_find_next dialog
             (editor\<lparr>document :=
                       take (selection_start (text_cursor editor)) (document editor)
                       @ inserted (replace_input dialog)
                       @ drop (selection_end (text_cursor editor)) (document editor),
                     text_cursor :=
                       \<lparr>anchor = selection_start (text_cursor editor)
                                   + length (inserted (replace_input dialog)),
                        position = selection_start (text_cursor editor)
                                   + length (inserted (replace_input dialog))\<rparr>\<rparr>,
              ReplacedOne)"
  using assms by (simp add: dialog_replace_def Let_def insert_text_def)




section \<open>The guard of a replacement compares exactly\<close>

lemma dialog_replace_document_case:
  "document (fst (dialog_replace (dialog\<lparr>case_sensitive := b\<rparr>) (editor, msg)))
     = document (fst (dialog_replace dialog (editor, msg)))"
  by (simp add: dialog_replace_def Let_def insert_text_def dialog_find_next_document)

text \<open>
  Claim C8. The guard of \<open>dialog_replace\<close> is the equality of the selected text and the
  search term, whatever the case option says: a selection that is the term up to the case
  of its letters only is not replaced, the document stays as it is and the handler does
  what \<open>dialog_find_next\<close> does. The document after \<open>dialog_replace\<close> does not depend on
  the case option.
\<close>

theorem dialog_replace_exact_case:
  "(dialog_find_input dialog \<noteq> []
    \<and> has_selection (text_cursor editor)
    \<and> selected_text (document editor) (text_cursor editor) = Some sel
    \<and> map to_lower sel = map to_lower (dialog_find_input dialog)
    \<and> sel \<noteq> dialog_find_input dialog \<longrightarrow>
      document (fst (dialog_replace dialog (editor, msg))) = document editor
      \<and> dialog_replace dialog (editor, msg) = dialog_find_next dialog (editor, msg))
   \<and> document (fst (dialog_replace (dialog\<lparr>case_sensitive := b\<rparr>) (editor, msg)))
       = document (fst (dialog_replace dialog (editor, msg)))"
proof (intro conjI impI)
  assume a: "dialog_find_input dialog \<noteq> []
    \<and> has_selection (text_cursor editor)
    \<and> selected_text (document editor) (text_cursor editor) = Some sel
    \<and> map to_lower sel = map to_lower (dialog_find_input dialog)
    \<and> sel \<noteq> dialog_find_input dialog"
  then have "\<not> (has_selection (text_cursor editor)
            \<and> selected_text (document editor) (text_cursor editor)
                = Some (dialog_find_input dialog))"
    by auto
  with a dialog_replace_mismatch [of dialog editor msg]
  show r: "dialog_replace dialog (editor, msg) = dialog_find_next dialog (editor, msg)"
    by blast
  show "document (fst (dialog_replace dialog (editor, msg))) = document editor"
    by (simp add: r dialog_find_next_document)
next
  show "document (fst (dialog_replace (dialog\<lparr>case_sensitive := b\<rparr>) (editor, msg)))
       = document (fst (dialog_replace dialog (editor, msg)))"
    by (rule dialog_replace_document_case)
qed

theorem dialog_replace_exact_case_witness:
  "dialog_find_next (dialog0 ''fox'' ''cat'' False False)
      (\<lparr>document = ''a Fox'', text_cursor = \<lparr>anchor = 0, position = 0\<rparr>\<rparr>, NoMessage)
     = (\<lparr>document = ''a Fox'', text_cursor = \<lparr>anchor = 2, position = 5\<rparr>\<rparr>, NoMessage)
   \<and> selected_text ''a Fox'' \<lparr>anchor = 2, position = 5\<rparr> = Some ''Fox''
   \<and> map to_lower ''Fox'' = map to_lower ''fox''
   \<and> document (fst (dialog_replace (dialog0 ''fox'' ''cat'' False False)
        (\<lparr>document = ''a Fox'', text_cursor = \<lparr>anchor = 2, position = 5\<rparr>\<rparr>, NoMessage)))
       = ''a Fox''"
proof -
  let ?d = "dialog0 ''fox'' ''cat'' False False"
  let ?e = "\<lparr>document = ''a Fox'', text_cursor = \<lparr>anchor = 2, position = 5\<rparr>\<rparr>"
  have 0: "dialog_find_next ?d
      (\<lparr>document = ''a Fox'', text_cursor = \<lparr>anchor = 0, position = 0\<rparr>\<rparr>, NoMessage)
     = (?e, NoMessage)"
    by code_simp
  have t: "dialog_find_input ?d \<noteq> []" "dialog_find_input ?d = ''fox''"
    by (simp_all add: dialog0_def)
  have h: "has_selection (text_cursor ?e)"
    "selected_text (document ?e) (text_cursor ?e) = Some ''Fox''"
    "map to_lower ''Fox'' = map to_lower ''fox''" "''Fox'' \<noteq> ''fox''"
    by code_simp+
  from dialog_replace_exact_case [of ?d ?e "''Fox''" NoMessage] t h
  have "document (fst (dialog_replace ?d (?e, NoMessage))) = ''a Fox''"
    by (simp add: dialog_find_next_document)
  with 0 h show ?thesis by simp
qed

section \<open>The fox scenario\<close>

text \<open>
  Claim C3, as amended. In \<open>The quick fox jumps over the lazy fox\<close> the scan for \<open>fox\<close>,
  ignoring case and matching whole words, finds the two spans \<open>(10, 13)\<close> and
  \<open>(34, 37)\<close>; so does the find bar, ignoring case. Replace-all with \<open>cat\<close> gives
  \<open>The quick cat jumps over the lazy cat\<close> and counts 2.
\<close>

theorem fox_scenario:
  "find_loop ''The quick fox jumps over the lazy fox'' ''fox''
      \<lparr>find_case_sensitively = False, find_whole_words = True\<rparr> \<lparr>anchor = 0, position = 0\<rparr>
     = [\<lparr>anchor = 10, position = 13\<rparr>, \<lparr>anchor = 34, position = 37\<rparr>]
   \<and> map_option extra_selections
        (perform_find (window0 ''The quick fox jumps over the lazy fox'' ''fox'' False))
     = Some [\<lparr>anchor = 10, position = 13\<rparr>, \<lparr>anchor = 34, position = 37\<rparr>]
   \<and> map_option find_matches
        (perform_find (window0 ''The quick fox jumps over the lazy fox'' ''fox'' False))
     = Some [10, 34]
   \<and> dialog_replace_all (dialog0 ''fox'' ''cat'' False True)
        (''The quick fox jumps over the lazy fox'', NoMessage)
     = (''The quick cat jumps over the lazy cat'', ReplacedOccurrences 2)"
  by code_simp

theorem fox_scenario_offsets_counterexample:
  "find_loop ''The quick fox jumps over the lazy fox'' ''fox''
      \<lparr>find_case_sensitively = False, find_whole_words = True\<rparr> \<lparr>anchor = 0, position = 0\<rparr>
     \<noteq> [\<lparr>anchor = 10, position = 13\<rparr>, \<lparr>anchor = 35, position = 38\<rparr>]
   \<and> length ''The quick fox jumps over the lazy fox'' = 37
   \<and> take 3 (drop 35 ''The quick fox jumps over the lazy fox'') = ''ox''
   \<and> take 3 (drop 34 ''The quick fox jumps over the lazy fox'') = ''fox''"
  by code_simp

section \<open>The spans of the misspelled words\<close>

lemma finditer_stop: "length s < pos \<Longrightarrow> finditer s pos = []"
  by (subst finditer.simps) simp

lemma finditer_match:
  "\<not> length s < pos \<Longrightarrow> match_at s pos = Some e \<Longrightarrow> finditer s pos = (pos, e) # finditer s e"
  by (subst finditer.simps) simp

lemma finditer_skip:
  "\<not> length s < pos \<Longrightarrow> match_at s pos = None \<Longrightarrow> finditer s pos = finditer s (pos + 1)"
  by (subst finditer.simps) simp

lemma takeWhile_run:
  "list_all P (take k xs)" if "k \<le> length (takeWhile P xs)"
proof -
  have "take k xs = take k (takeWhile P xs)"
    using that
    by (metis append_eq_conv_conj takeWhile_dropWhile_id take_take min.absorb1 take_append
        diff_is_0_eq' take_0 append_Nil2 length_take)
  then show ?thesis
    by (metis list_all_iff in_set_takeD set_takeWhileD)
qed

lemma match_at_word:
  assumes "match_at s i = Some e" "i \<le> length s"
  shows "i < e \<and> e \<le> length s \<and> list_all is_letter (take (e - i) (drop i s))
         \<and> word_boundary s i \<and> word_boundary s e"
proof -
  from match_at_bounds [OF assms(1)]
  have b: "i < e" "e \<le> i + length (takeWhile is_letter (drop i s))" by simp_all
  have "length (takeWhile is_letter (drop i s)) \<le> length (drop i s)"
    by (rule length_takeWhile_le)
  with b assms(2) have le: "e \<le> length s" by simp
  from b have "e - i \<le> length (takeWhile is_letter (drop i s))" by simp
  then have run: "list_all is_letter (take (e - i) (drop i s))" by (rule takeWhile_run)
  from assms(1) have wb: "word_boundary s i" by (simp add: match_at_def split: if_splits)
  from assms(1) have "find (word_boundary s)
      (rev [i + 1 ..< i + 1 + length (takeWhile is_letter (drop i s))]) = Some e"
    by (simp add: match_at_def split: if_splits)
  then have "word_boundary s e" by (auto simp: find_Some_iff)
  with b le run wb show ?thesis by simp
qed

lemma letter_word_char: "is_letter c \<Longrightarrow> is_word_char c"
  by (simp add: is_word_char_def is_alpha_def)

lemma match_at_delimited:
  assumes "match_at s i = Some e" "i \<le> length s"
  shows "(i = 0 \<or> \<not> is_word_char (s ! (i - 1))) \<and> (e = length s \<or> \<not> is_word_char (s ! e))"
proof -
  from match_at_word [OF assms]
  have b: "i < e" "e \<le> length s" and run: "list_all is_letter (take (e - i) (drop i s))"
    and wi: "word_boundary s i" and we: "word_boundary s e" by simp_all
  have nth: "is_letter (s ! k)" if "i \<le> k" "k < e" for k
  proof -
    from that b have "k - i < length (take (e - i) (drop i s))" by simp
    with run have "is_letter (take (e - i) (drop i s) ! (k - i))"
      by (simp only: list_all_length)
    with that b show ?thesis by simp
  qed
  from nth [of i] b have "is_word_char (s ! i)" by (simp add: letter_word_char)
  with wi b have first: "i = 0 \<or> \<not> is_word_char (s ! (i - 1))"
    by (auto simp: word_boundary_def)
  from nth [of "e - 1"] b have "is_word_char (s ! (e - 1))" by (simp add: letter_word_char)
  with we b have last: "e = length s \<or> \<not> is_word_char (s ! e)"
    by (auto simp: word_boundary_def)
  from first last show ?thesis by simp
qed

lemma finditer_member:
  "(a, e) \<in> set (finditer s pos)
     \<Longrightarrow> pos \<le> a \<and> match_at s a = Some e \<and> a \<le> length s"
proof (induction s pos rule: finditer.induct)
  case (1 s pos)
  show ?case
  proof (cases "length s < pos")
    case True
    with "1.prems" show ?thesis by (simp add: finditer_stop)
  next
    case False
    show ?thesis
    proof (cases "match_at s pos")
      case None
      with False "1.prems" have "(a, e) \<in> set (finditer s (pos + 1))"
        by (simp add: finditer_skip)
      from "1.IH"(1) [OF False None this] show ?thesis by simp
    next
      case (Some e0)
      from match_at_bounds [OF Some] have lt: "pos < e0" by simp
      from False Some "1.prems" have "(a, e) = (pos, e0) \<or> (a, e) \<in> set (finditer s e0)"
        by (simp add: finditer_match)
      then show ?thesis
      proof
        assume "(a, e) = (pos, e0)"
        with Some False show ?thesis by simp
      next
        assume "(a, e) \<in> set (finditer s e0)"
        from "1.IH"(2) [OF False Some this] lt show ?thesis by simp
      qed
    qed
  qed
qed

lemma finditer_disjoint:
  "sorted_wrt (\<lambda>x y. snd x \<le> fst y) (finditer s pos)"
proof (induction s pos rule: finditer.induct)
  case (1 s pos)
  show ?case
  proof (cases "length s < pos")
    case True
    then show ?thesis by (simp add: finditer_stop)
  next
    case False
    show ?thesis
    proof (cases "match_at s pos")
      case None
      with False "1.IH"(1) show ?thesis by (simp add: finditer_skip)
    next
      case (Some e0)
      have "\<forall>y \<in> set (finditer s e0). e0 \<le> fst y"
        using finditer_member [of _ _ s e0] by auto
      with False Some "1.IH"(2) show ?thesis by (simp add: finditer_match)
    qed
  qed
qed

lemma finditer_ascending:
  "sorted_wrt (\<lambda>x y. fst x < fst y) (finditer s pos)"
proof (rule sorted_wrt_mono_rel [OF _ finditer_disjoint])
  fix x y :: "nat \<times> nat"
  assume "x \<in> set (finditer s pos)" "snd x \<le> fst y"
  moreover from this(1) have "fst x < snd x"
    using finditer_member [of "fst x" "snd x" s pos] match_at_bounds [of s "fst x" "snd x"]
    by simp
  ultimately show "fst x < fst y" by simp
qed

lemma find_misspelled_member:
  assumes "(word, a, e) \<in> set (find_misspelled_words sc s)"
  shows "(a, e) \<in> set (finditer s 0) \<and> word = take (e - a) (drop a s)
         \<and> \<not> check_word sc word"
  using assms by (auto simp: find_misspelled_words_def split: if_splits)

lemma find_misspelled_ascending:
  "sorted_wrt (<) (map (\<lambda>(word, a, e). a) (find_misspelled_words sc s))"
proof -
  let ?spans = "map (\<lambda>(a, e). (take (e - a) (drop a s), a, e)) (finditer s 0)"
  have "sorted_wrt (\<lambda>x y. fst (snd x) < fst (snd y)) ?spans"
    using finditer_ascending [of s 0] by (simp add: sorted_wrt_map case_prod_unfold)
  then have "sorted_wrt (\<lambda>x y. fst (snd x) < fst (snd y))
      (filter (\<lambda>(word, a, e). \<not> check_word sc word) ?spans)"
    by (rule sorted_wrt_filter)
  then show ?thesis
    by (simp add: find_misspelled_words_def sorted_wrt_map case_prod_unfold)
qed

lemma check_word_not_alpha: "\<not> isalpha w \<Longrightarrow> check_word sc w"
  by (simp add: check_word_def split: option.splits)

text \<open>
  Claim C9. Every triple \<open>(word, start, end)\<close> of \<open>find_misspelled_words\<close> has
  \<open>start < end \<le> length text\<close> and \<open>text[start:end] = word\<close>; the word is made of
  letters \<open>a-z\<close>, \<open>A-Z\<close> only and has no word character next to it on either side;
  the triples come in strictly increasing order of their starts. \<open>check_word\<close> accepts
  every word that is not alphabetic, so no such word is reported.
\<close>

theorem misspelled_word_spans:
  "(\<forall>(word, a, e) \<in> set (find_misspelled_words sc s).
      a < e \<and> e \<le> length s \<and> take (e - a) (drop a s) = word
      \<and> list_all is_letter word \<and> isalpha word
      \<and> (a = 0 \<or> \<not> is_word_char (s ! (a - 1)))
      \<and> (e = length s \<or> \<not> is_word_char (s ! e)))
   \<and> sorted_wrt (<) (map (\<lambda>(word, a, e). a) (find_misspelled_words sc s))
   \<and> (\<not> isalpha w \<longrightarrow> check_word sc w)"
proof (intro conjI)
  show "\<forall>(word, a, e) \<in> set (find_misspelled_words sc s).
      a < e \<and> e \<le> length s \<and> take (e - a) (drop a s) = word
      \<and> list_all is_letter word \<and> isalpha word
      \<and> (a = 0 \<or> \<not> is_word_char (s ! (a - 1)))
      \<and> (e = length s \<or> \<not> is_word_char (s ! e))"
  proof (clarify, intro conjI)
    fix word :: string and a e :: nat
    assume "(word, a, e) \<in> set (find_misspelled_words sc s)"
    from find_misspelled_member [OF this]
    have it: "(a, e) \<in> set (finditer s 0)" and w: "word = take (e - a) (drop a s)"
      and bad: "\<not> check_word sc word" by blast+
    from finditer_member [OF it] have m: "match_at s a = Some e" "a \<le> length s" by simp_all
    note mw = match_at_word [OF m] and md = match_at_delimited [OF m]
    from mw show "a < e" "e \<le> length s" by simp_all
    from w show "take (e - a) (drop a s) = word" by simp
    from mw w show "list_all is_letter word" by simp
    from bad show "isalpha word" using check_word_not_alpha by blast
    from md show "a = 0 \<or> \<not> is_word_char (s ! (a - 1))" by simp
    from md show "e = length s \<or> \<not> is_word_char (s ! e)" by simp
  qed
next
  show "sorted_wrt (<) (map (\<lambda>(word, a, e). a) (find_misspelled_words sc s))"
    by (rule find_misspelled_ascending)
next
  show "\<not> isalpha w \<longrightarrow> check_word sc w"
    using check_word_not_alpha by blast
qed

theorem misspelled_word_spans_witness:
  "find_misspelled_words checker0 ''The ct sat, abc1 x_y'' = [(''ct'', 4, 6), (''sat'', 7, 10)]
   \<and> (4::nat) < 6 \<and> 6 \<le> length ''The ct sat, abc1 x_y''
   \<and> take (6 - 4) (drop 4 ''The ct sat, abc1 x_y'') = ''ct''
   \<and> isalpha ''ct''
   \<and> \<not> is_word_char (''The ct sat, abc1 x_y'' ! 6)
   \<and> \<not> isalpha ''abc1'' \<and> check_word checker0 ''abc1''
   \<and> find_misspelled_words checker0
        [CHR ''c'', CHR ''a'', CHR ''f'', CHR 0xE9, CHR '' '', CHR ''c'', CHR ''t'']
       = [(''ct'', 5, 7)]
   \<and> isalpha [CHR 0xE9] \<and> \<not> check_word checker0 [CHR 0xE9]"
proof -
  have l: "find_misspelled_words checker0
        [CHR ''c'', CHR ''a'', CHR ''f'', CHR 0xE9, CHR '' '', CHR ''c'', CHR ''t'']
       = [(''ct'', 5, 7)]"
    "isalpha [CHR 0xE9]" "\<not> check_word checker0 [CHR 0xE9]"
    by code_simp+
  have e: "find_misspelled_words checker0 ''The ct sat, abc1 x_y''
      = [(''ct'', 4, 6), (''sat'', 7, 10)]"
    by code_simp
  have n: "\<not> isalpha ''abc1''" by code_simp
  note t = misspelled_word_spans [of checker0 "''The ct sat, abc1 x_y''" "''abc1''"]
  from t e have "(4::nat) < 6 \<and> 6 \<le> length ''The ct sat, abc1 x_y''
     \<and> take (6 - 4) (drop 4 ''The ct sat, abc1 x_y'') = ''ct'' \<and> isalpha ''ct''
     \<and> (6 = length ''The ct sat, abc1 x_y'' \<or> \<not> is_word_char (''The ct sat, abc1 x_y'' ! 6))"
    by simp
  moreover from t n have "check_word checker0 ''abc1''" by blast
  ultimately have "find_misspelled_words checker0 ''The ct sat, abc1 x_y''
       = [(''ct'', 4, 6), (''sat'', 7, 10)]
     \<and> (4::nat) < 6 \<and> 6 \<le> length ''The ct sat, abc1 x_y''
     \<and> take (6 - 4) (drop 4 ''The ct sat, abc1 x_y'') = ''ct''
     \<and> isalpha ''ct''
     \<and> \<not> is_word_char (''The ct sat, abc1 x_y'' ! 6)
     \<and> \<not> isalpha ''abc1'' \<and> check_word checker0 ''abc1''"
    using e n by simp
  with l show ?thesis by (simp only: simp_thms)
qed

section \<open>Letters and numbers at the ends of a text\<close>

lemma is_letter_or_number_to_lower [simp]:
  "is_letter_or_number (to_lower c) = is_letter_or_number c"
proof (cases "is_upper c \<or> in_range 0xC0 0xD6 c \<or> in_range 0xD8 0xDE c")
  case False
  then show ?thesis by (simp add: to_lower_def)
next
  case True
  define n where "n = (of_char c :: nat)"
  from True have u: "(0x41 \<le> n \<and> n \<le> 0x5A) \<or> (0xC0 \<le> n \<and> n \<le> 0xD6) \<or> (0xD8 \<le> n \<and> n \<le> 0xDE)"
    by (simp add: is_upper_def in_range_def n_def)
  then have lt: "n + 32 < 256" by arith
  then have oc: "(of_char (char_of (n + 32)) :: nat) = n + 32" by simp
  have a: "is_alpha c"
    unfolding is_alpha_def is_letter_def is_upper_def is_lower_def in_range_def n_def [symmetric]
    using u by arith
  have b: "is_alpha (char_of (n + 32))"
    unfolding is_alpha_def is_letter_def is_upper_def is_lower_def in_range_def oc
    using u by arith
  have "to_lower c = char_of (n + 32)" using True by (simp add: to_lower_def n_def)
  with a b show ?thesis by (simp add: is_letter_or_number_def)
qed


lemma is_letter_or_number_search [simp]:
  "is_letter_or_number (if c = nbsp then blank else c) = is_letter_or_number c"
proof -
  have "\<not> is_letter_or_number nbsp" by code_simp
  then show ?thesis by (simp add: blank_not_letter_or_number)
qed

lemma fold_case_empty [simp]: "fold_case cs [] = []"
  by (simp add: fold_case_def)

lemma blank_nbsp_empty [simp]: "blank_nbsp [] = []"
  by (simp add: blank_nbsp_def)

lemma is_letter_or_number_hd_search:
  "s \<noteq> [] \<Longrightarrow>
     is_letter_or_number (hd (fold_case cs (blank_nbsp s))) = is_letter_or_number (hd s)"
  by (cases s) (simp_all add: fold_case_def blank_nbsp_def)

lemma is_letter_or_number_hd_fold_case:
  "s \<noteq> [] \<Longrightarrow> is_letter_or_number (hd (fold_case cs s)) = is_letter_or_number (hd s)"
  by (cases s) (simp_all add: fold_case_def)

lemma ends_in_letter_or_number_blank_nbsp [simp]:
  "ends_in_letter_or_number (blank_nbsp s) = ends_in_letter_or_number s"
  by (cases "s = []") (simp_all add: ends_in_letter_or_number_def blank_nbsp_def last_map)

lemma ends_in_letter_or_number_fold_case [simp]:
  "ends_in_letter_or_number (fold_case cs s) = ends_in_letter_or_number s"
  by (cases "s = []") (simp_all add: ends_in_letter_or_number_def fold_case_def last_map)

lemma inserted_Nil [simp]: "inserted s = [] \<longleftrightarrow> s = []"
  by (induction s rule: inserted.induct) simp_all

lemma ends_in_letter_or_number_inserted [simp]:
  "ends_in_letter_or_number (inserted s) = ends_in_letter_or_number s"
proof -
  have n: "\<not> is_letter_or_number newline" "\<not> is_letter_or_number carriage_return"
    by code_simp+
  have "s \<noteq> [] \<Longrightarrow> is_letter_or_number (last (inserted s)) = is_letter_or_number (last s)"
  proof (induction s rule: inserted.induct)
    case 1
    then show ?case by simp
  next
    case (2 c)
    with n show ?case by simp
  next
    case (3 c d s)
    show ?case
    proof (cases "c = carriage_return \<and> d = newline")
      case True
      with 3 n show ?thesis by (cases "s = []") simp_all
    next
      case False
      have "inserted (c # d # s)
          = (if c = carriage_return then newline else c) # inserted (d # s)"
        by (simp only: inserted.simps(3) False if_False)
      moreover have "inserted (d # s) \<noteq> []" by simp
      ultimately have "last (inserted (c # d # s)) = last (inserted (d # s))"
        using last_ConsR [of "inserted (d # s)"] by simp
      moreover from "3.IH"(2) [OF False]
      have "is_letter_or_number (last (inserted (d # s))) = is_letter_or_number (last (d # s))"
        by simp
      ultimately show ?thesis by simp
    qed
  qed
  then show ?thesis by (cases "s = []") (simp_all add: ends_in_letter_or_number_def)
qed

lemma ends_in_letter_or_number_take:
  "k \<le> length s \<Longrightarrow>
     ends_in_letter_or_number (take k s) = (k \<noteq> 0 \<and> is_letter_or_number (s ! (k - 1)))"
proof (cases "k = 0")
  case True
  then show ?thesis by (simp add: ends_in_letter_or_number_def)
next
  case False
  assume le: "k \<le> length s"
  with False have ne: "take k s \<noteq> []" by auto
  from le have "length (take k s) = k" by simp
  with ne have "last (take k s) = take k s ! (k - 1)" by (simp add: last_conv_nth)
  also from False have "\<dots> = s ! (k - 1)" by simp
  finally show ?thesis using False ne by (simp add: ends_in_letter_or_number_def)
qed

lemma ends_in_letter_or_number_append:
  "ys \<noteq> [] \<Longrightarrow> ends_in_letter_or_number (xs @ ys) = ends_in_letter_or_number ys"
  by (simp add: ends_in_letter_or_number_def)


lemma prefix_search_hd:
  assumes "prefix (fold_case cs sub) (fold_case cs (blank_nbsp s))" "sub \<noteq> []"
  shows "s \<noteq> [] \<and> is_letter_or_number (hd s) = is_letter_or_number (hd sub)"
proof -
  from assms have ne: "s \<noteq> []" by (cases s) simp_all
  from assms ne have "hd (fold_case cs (blank_nbsp s)) = hd (fold_case cs sub)"
    by (cases "fold_case cs sub"; cases "fold_case cs (blank_nbsp s)") simp_all
  with is_letter_or_number_hd_search [OF ne, of cs] is_letter_or_number_hd_fold_case [OF assms(2), of cs]
  show ?thesis using ne by simp
qed

lemma occurrence_ends:
  assumes "fold_case cs (blank_nbsp m) = fold_case cs sub"
  shows "ends_in_letter_or_number m = ends_in_letter_or_number sub"
proof -
  have "ends_in_letter_or_number m = ends_in_letter_or_number (fold_case cs (blank_nbsp m))"
    by simp
  also have "\<dots> = ends_in_letter_or_number sub" unfolding assms by simp
  finally show ?thesis .
qed

section \<open>The search in a changed context\<close>

lemma index_of_append:
  "index_of cs sub (pre @ suf) (length pre) =
     map_option (\<lambda>i. length pre + i) (first_occurrence (fold_case cs sub) (fold_case cs suf))"
  by (simp add: index_of_def)



section \<open>Replace-all as one pass over the original text\<close>

lemma replace_loop_None:
  "document_find doc search_text cursor flags = None
     \<Longrightarrow> replace_loop doc search_text replace_text flags cursor count = (doc, count)"
  by (subst replace_loop.simps) simp

lemma replace_loop_Some:
  "document_find doc search_text cursor flags = Some c
     \<Longrightarrow> replace_loop doc search_text replace_text flags cursor count =
         replace_loop
           (take (selection_start c) doc @ inserted replace_text @ drop (selection_end c) doc)
           search_text replace_text flags
           \<lparr>anchor = selection_start c + length (inserted replace_text),
            position = selection_start c + length (inserted replace_text)\<rparr> (count + 1)"
  by (subst replace_loop.simps) (simp add: insert_text_def)

lemma document_find_from:
  "sub \<noteq> [] \<Longrightarrow> newline \<notin> set sub \<Longrightarrow>
     document_find doc sub cursor flags =
       map_option (\<lambda>idx. \<lparr>anchor = idx, position = idx + length sub\<rparr>)
         (find_from flags sub (blank_nbsp doc) (selection_end cursor))"
  by (simp add: document_find_def)

lemma document_find_newline:
  "newline \<in> set sub \<Longrightarrow> document_find doc sub cursor flags = None"
  by (simp add: document_find_def)

lemma find_from_occurrence:
  assumes "find_from flags sub (blank_nbsp (pre @ suf)) (length pre) = Some a"
    and "sub \<noteq> []" "newline \<notin> set sub"
  shows "length pre \<le> a \<and> a - length pre + length sub \<le> length suf
       \<and> fold_case (find_case_sensitively flags)
            (blank_nbsp (take (length sub) (drop (a - length pre) suf)))
          = fold_case (find_case_sensitively flags) sub
       \<and> (find_whole_words flags \<longrightarrow>
             \<not> ends_in_letter_or_number (pre @ take (a - length pre) suf)
             \<and> (drop (a - length pre + length sub) suf = []
                 \<or> \<not> is_letter_or_number (hd (drop (a - length pre + length sub) suf))))"
proof -
  let ?cs = "find_case_sensitively flags"
  let ?i = "a - length pre"
  from find_from_bounds [OF assms(1)]
  have ba: "length pre \<le> a" "a + length sub \<le> length pre + length suf" by simp_all
  then have a: "a = length pre + ?i" and bi: "?i + length sub \<le> length suf" by simp_all
  from find_from_accepted [OF assms(1)] obtain q where
    ix: "index_of ?cs sub (blank_nbsp (pre @ suf)) q = Some a"
    and w: "find_whole_words flags \<longrightarrow>
           \<not> (a \<noteq> 0 \<and> is_letter_or_number (blank_nbsp (pre @ suf) ! (a - 1)))
           \<and> \<not> (a + length sub \<noteq> length (blank_nbsp (pre @ suf))
                \<and> is_letter_or_number (blank_nbsp (pre @ suf) ! (a + length sub)))"
    by blast
  from index_of_occurs [OF ix assms(3)] have "occurs_at ?cs sub (pre @ suf) a" by simp
  then have "fold_case ?cs (blank_nbsp (take (length sub) (drop a (pre @ suf))))
      = fold_case ?cs sub"
    by (simp only: occurs_at_def)
  moreover have "drop a (pre @ suf) = drop ?i suf" using ba(1) by simp
  ultimately have occ: "fold_case ?cs (blank_nbsp (take (length sub) (drop ?i suf)))
      = fold_case ?cs sub" by simp
  have ww: "\<not> ends_in_letter_or_number (pre @ take ?i suf)
      \<and> (drop (?i + length sub) suf = []
          \<or> \<not> is_letter_or_number (hd (drop (?i + length sub) suf)))"
    if f: "find_whole_words flags"
  proof
    from w f have b: "\<not> (a \<noteq> 0 \<and> is_letter_or_number (blank_nbsp (pre @ suf) ! (a - 1)))"
      by simp
    have "a \<le> length (blank_nbsp (pre @ suf))" using ba by simp
    from ends_in_letter_or_number_take [OF this] b
    have n: "\<not> ends_in_letter_or_number (take a (blank_nbsp (pre @ suf)))" by simp
    have eq: "take a (blank_nbsp (pre @ suf)) = blank_nbsp (pre @ take ?i suf)"
      using ba(1) by simp
    from n show "\<not> ends_in_letter_or_number (pre @ take ?i suf)"
      unfolding eq ends_in_letter_or_number_blank_nbsp .
  next
    show "drop (?i + length sub) suf = []
        \<or> \<not> is_letter_or_number (hd (drop (?i + length sub) suf))"
    proof (cases "drop (?i + length sub) suf = []")
      case True
      then show ?thesis ..
    next
      case False
      then have lt: "?i + length sub < length suf" by simp
      then have ne: "a + length sub \<noteq> length (blank_nbsp (pre @ suf))"
        and k: "a + length sub < length (pre @ suf)"
        using ba(1) by simp_all
      from w f ne have "\<not> is_letter_or_number (blank_nbsp (pre @ suf) ! (a + length sub))"
        by simp
      with is_letter_or_number_blank_nbsp [OF k]
      have "\<not> is_letter_or_number ((pre @ suf) ! (a + length sub))" by simp
      moreover have "(pre @ suf) ! (a + length sub) = suf ! (?i + length sub)"
      proof -
        have "a + length sub = length pre + (?i + length sub)" using ba(1) by simp
        then show ?thesis by (simp only: nth_append_length_plus)
      qed
      moreover have "hd (drop (?i + length sub) suf) = suf ! (?i + length sub)"
        using lt by (rule hd_drop_conv_nth)
      ultimately show ?thesis by simp
    qed
  qed
  from ba(1) bi occ ww show ?thesis by blast
qed







section \<open>Replacing forth and back\<close>

lemma set_occurrences: "set (occurrences cs sub doc) = {a. occurs_at cs sub doc a}"
proof -
  have "a < Suc (length doc)" if "occurs_at cs sub doc a" for a
    using occurs_at_bound [OF that] by simp
  then show ?thesis unfolding occurrences_def set_filter set_upt by auto
qed

lemma occurrences_empty: "occurrences cs sub doc = [] \<longleftrightarrow> (\<forall>a. \<not> occurs_at cs sub doc a)"
  using set_occurrences [of cs sub doc] by (auto simp flip: set_empty)

lemma no_occurrence_no_factor:
  assumes "occurrences cs sub doc = []" "sub \<noteq> []" "newline \<notin> set sub"
  shows "\<not> prefix (fold_case cs sub) (drop j (fold_case cs (blank_nbsp doc)))"
proof
  assume p: "prefix (fold_case cs sub) (drop j (fold_case cs (blank_nbsp doc)))"
  have "j \<le> length doc"
  proof (rule ccontr)
    assume "\<not> j \<le> length doc"
    then have "drop j (fold_case cs (blank_nbsp doc)) = []" by simp
    with p assms(2) show False by simp
  qed
  then have "0 + j \<le> length doc" by simp
  from occurs_at_prefix [OF assms(3) this, of cs] p have "occurs_at cs sub doc j" by simp
  with assms(1) show False by (simp add: occurrences_empty)
qed

lemma borderedI:
  "0 < k \<Longrightarrow> k < length s \<Longrightarrow> take k s = drop (length s - k) s \<Longrightarrow> bordered s"
  unfolding bordered_def list_ex_iff by (rule bexI [of _ k]) simp_all

lemma inserted_id: "carriage_return \<notin> set s \<Longrightarrow> inserted s = s"
  by (induction s rule: inserted.induct) auto

lemma blank_nbsp_id: "nbsp \<notin> set s \<Longrightarrow> blank_nbsp s = s"
  by (induction s) (auto simp: blank_nbsp_def)

lemma no_factor_first_occurrence:
  assumes "\<forall>j. \<not> prefix sub (drop j xs)"
  shows "first_occurrence sub xs = None"
proof (cases "first_occurrence sub xs")
  case None
  then show ?thesis .
next
  case (Some i)
  from first_occurrence_prefix [OF Some] assms show ?thesis by simp
qed

lemma no_factor_take:
  assumes "\<forall>j. \<not> prefix sub (drop j xs)"
  shows "\<not> prefix sub (drop j (take i xs))"
proof
  assume "prefix sub (drop j (take i xs))"
  then have "prefix sub (take (i - j) (drop j xs))" by (simp only: drop_take)
  moreover have "prefix (take (i - j) (drop j xs)) (drop j xs)" by (rule take_is_prefix)
  ultimately have "prefix sub (drop j xs)" by (rule prefix_order.trans)
  with assms show False by simp
qed



lemma prefix_overlap:
  assumes pv: "prefix sub (v @ sub @ ys)" and npv: "\<not> prefix sub v" and vne: "v \<noteq> []"
  shows "bordered sub"
proof -
  from pv npv have "\<exists>us. sub = v @ us \<and> prefix us (sub @ ys)"
    by (auto simp: prefix_append)
  then obtain us where us: "sub = v @ us" and pu: "prefix us (sub @ ys)" by blast
  from us vne have l: "length us < length sub" by simp
  from us npv have usne: "us \<noteq> []" by auto
  from pu l have "prefix us sub" by (auto simp: prefix_append)
  then have tk: "take (length us) sub = us" by (auto simp: prefix_def)
  have dr: "drop (length v) sub = us" using us by simp
  have ln: "length sub - length us = length v" using us by simp
  have "take (length us) sub = drop (length sub - length us) sub"
    unfolding ln dr tk ..
  moreover from usne have "0 < length us" by simp
  ultimately show ?thesis using l by (intro borderedI [of "length us"])
qed

lemma first_occurrence_behind_unbordered:
  assumes unb: "\<not> bordered sub" and nf: "\<And>j. \<not> prefix sub (drop j w)"
  shows "first_occurrence sub (w @ sub @ ys) = Some (length w)"
proof -
  have p: "prefix sub (drop (length w) (w @ sub @ ys))" by simp
  from first_occurrence_some [OF p] have "\<exists>i. first_occurrence sub (w @ sub @ ys) = Some i"
    by simp
  then obtain i where i: "first_occurrence sub (w @ sub @ ys) = Some i" ..
  have 1: "\<not> length w < i"
    using first_occurrence_least [OF i, of "length w"] p by blast
  have 2: "\<not> i < length w"
  proof
    assume lt: "i < length w"
    have vne: "drop i w \<noteq> []" using lt by simp
    have eq: "drop i (w @ sub @ ys) = drop i w @ sub @ ys" using lt by simp
    have pv: "prefix sub (drop i w @ sub @ ys)"
      using first_occurrence_prefix [OF i] unfolding eq .
    from prefix_overlap [OF pv nf vne] unb show False by (rule notE [rotated])
  qed
  from 1 2 have "i = length w" by simp
  with i show ?thesis by simp
qed


lemma second_pass_step:
  assumes r: "r \<noteq> []" "newline \<notin> set r" "blank_nbsp r = r"
    and unb: "\<not> bordered (fold_case (find_case_sensitively fl) r)"
    and nf: "\<And>j. \<not> prefix (fold_case (find_case_sensitively fl) r)
                    (drop j (fold_case (find_case_sensitively fl) (blank_nbsp u)))"
    and sel: "selection_end cur2 = length P2"
    and acc: "find_whole_words fl \<longrightarrow>
        \<not> ends_in_letter_or_number (P2 @ u) \<and> (X2 = [] \<or> \<not> is_letter_or_number (hd X2))"
  shows "replace_loop (P2 @ u @ r @ X2) r t fl cur2 n2 =
         replace_loop ((P2 @ u @ inserted t) @ X2) r t fl
           \<lparr>anchor = length (P2 @ u @ inserted t), position = length (P2 @ u @ inserted t)\<rparr>
           (n2 + 1)"
proof -
  let ?cs = "find_case_sensitively fl"
  let ?doc = "P2 @ u @ r @ X2"
  let ?s = "blank_nbsp ?doc"
  let ?idx = "length P2 + length u"
  have s: "?s = blank_nbsp P2 @ blank_nbsp (u @ r @ X2)" by simp
  have f: "fold_case ?cs (blank_nbsp (u @ r @ X2))
      = fold_case ?cs (blank_nbsp u) @ fold_case ?cs r @ fold_case ?cs (blank_nbsp X2)"
    using r(3) by simp
  have fo: "first_occurrence (fold_case ?cs r) (fold_case ?cs (blank_nbsp (u @ r @ X2)))
      = Some (length u)"
    unfolding f using first_occurrence_behind_unbordered [OF unb nf] by simp
  have "index_of ?cs r (blank_nbsp P2 @ blank_nbsp (u @ r @ X2)) (length (blank_nbsp P2))
      = Some (length (blank_nbsp P2) + length u)"
    unfolding index_of_append fo by simp
  then have ix: "index_of ?cs r ?s (length P2) = Some ?idx"
    unfolding s by simp
  have notrej: "\<not> (find_whole_words fl
         \<and> ((?idx \<noteq> 0 \<and> is_letter_or_number (?s ! (?idx - 1)))
            \<or> (?idx + length r \<noteq> length ?s \<and> is_letter_or_number (?s ! (?idx + length r)))))"
  proof
    assume a: "find_whole_words fl
         \<and> ((?idx \<noteq> 0 \<and> is_letter_or_number (?s ! (?idx - 1)))
            \<or> (?idx + length r \<noteq> length ?s \<and> is_letter_or_number (?s ! (?idx + length r))))"
    with acc have e: "\<not> ends_in_letter_or_number (P2 @ u)"
      and h: "X2 = [] \<or> \<not> is_letter_or_number (hd X2)" by simp_all
    have "?idx \<le> length ?s" by simp
    from ends_in_letter_or_number_take [OF this]
    have "(?idx \<noteq> 0 \<and> is_letter_or_number (?s ! (?idx - 1)))
        = ends_in_letter_or_number (take ?idx ?s)" by simp
    also have "take ?idx ?s = blank_nbsp (P2 @ u)" by simp
    finally have before: "\<not> (?idx \<noteq> 0 \<and> is_letter_or_number (?s ! (?idx - 1)))"
      using e by (simp only: ends_in_letter_or_number_blank_nbsp simp_thms)
    have after: "\<not> (?idx + length r \<noteq> length ?s \<and> is_letter_or_number (?s ! (?idx + length r)))"
    proof (cases "X2 = []")
      case True
      then show ?thesis by simp
    next
      case False
      with h have nh: "\<not> is_letter_or_number (hd X2)" by simp
      from False have k: "?idx + length r < length ?doc" by simp
      have "?doc ! (?idx + length r) = ((P2 @ u @ r) @ X2) ! (length (P2 @ u @ r) + 0)"
        by (simp add: add.assoc)
      also have "\<dots> = X2 ! 0" by (simp only: nth_append_length_plus)
      also have "\<dots> = hd X2" using False by (simp add: hd_conv_nth)
      finally have "is_letter_or_number (?s ! (?idx + length r)) = is_letter_or_number (hd X2)"
        using is_letter_or_number_blank_nbsp [OF k] by simp
      with nh show ?thesis by simp
    qed
    from a before after show False by blast
  qed
  have ff: "find_from fl r ?s (length P2) = Some ?idx"
    by (rule trans [OF find_from_step [OF ix] if_not_P [OF notrej]])
  let ?c = "\<lparr>anchor = ?idx, position = ?idx + length r\<rparr>"
  have df: "document_find ?doc r cur2 fl = Some ?c"
    using document_find_from [OF r(1) r(2), of ?doc cur2 fl] sel ff by simp
  have sc: "selection_start ?c = ?idx" "selection_end ?c = ?idx + length r"
    by (simp_all add: selection_start_def selection_end_def)
  have tk: "take ?idx ?doc = P2 @ u" by simp
  have dr: "drop (?idx + length r) ?doc = X2" by (simp add: add.assoc)
  show ?thesis
    using replace_loop_Some [OF df, of t n2] unfolding sc tk dr by (simp add: add.assoc)
qed


lemma round_trip_step:
  assumes t: "t \<noteq> []" "newline \<notin> set t"
    and r: "r \<noteq> []" "newline \<notin> set r" "inserted r = r" "blank_nbsp r = r"
    and unb: "\<not> bordered (fold_case (find_case_sensitively fl) r)"
    and h5: "find_whole_words fl \<longrightarrow>
        is_letter_or_number (hd t)
        \<or> (is_letter_or_number (hd r) = is_letter_or_number (hd t)
            \<and> ends_in_letter_or_number r = ends_in_letter_or_number t)"
  shows "selection_end cur = length P \<Longrightarrow>
     (\<forall>j. \<not> prefix (fold_case (find_case_sensitively fl) r)
             (drop j (fold_case (find_case_sensitively fl) (blank_nbsp S)))) \<Longrightarrow>
     (\<forall>j. j + length t \<le> length S
           \<and> fold_case (find_case_sensitively fl) (blank_nbsp (take (length t) (drop j S)))
               = fold_case (find_case_sensitively fl) t \<longrightarrow>
         take (length t) (drop j S) = inserted t) \<Longrightarrow>
     \<exists>X. fst (replace_loop (P @ S) t r fl cur n) = P @ X
        \<and> (find_whole_words fl \<longrightarrow> (S = [] \<or> \<not> is_letter_or_number (hd S)) \<longrightarrow>
              (X = [] \<or> \<not> is_letter_or_number (hd X)))
        \<and> (\<forall>P2 cur2 n2. selection_end cur2 = length P2 \<longrightarrow>
              (find_whole_words fl \<longrightarrow>
                 (\<not> ends_in_letter_or_number P \<longrightarrow> \<not> ends_in_letter_or_number P2)
                 \<or> \<not> prefix (fold_case (find_case_sensitively fl) t)
                      (fold_case (find_case_sensitively fl) (blank_nbsp S))) \<longrightarrow>
              fst (replace_loop (P2 @ X) r t fl cur2 n2) = P2 @ S)"
proof (induction "length S" arbitrary: P S cur n rule: less_induct)
  case less
  let ?cs = "find_case_sensitively fl"
  note sel = less.prems(1) and nf = less.prems(2) and sp = less.prems(3)
  let ?ff = "find_from fl t (blank_nbsp (P @ S)) (length P)"
  have df: "document_find (P @ S) t cur fl =
      map_option (\<lambda>idx. \<lparr>anchor = idx, position = idx + length t\<rparr>) ?ff"
    using document_find_from [OF t, of "P @ S" cur fl] sel by simp
  show ?case
  proof (cases ?ff)
    case None
    with df have "document_find (P @ S) t cur fl = None" by simp
    then have 1: "fst (replace_loop (P @ S) t r fl cur n) = P @ S"
      by (simp add: replace_loop_None)
    have 3: "fst (replace_loop (P2 @ S) r t fl cur2 n2) = P2 @ S"
      if s2: "selection_end cur2 = length P2" for P2 cur2 n2
    proof -
      from nf have "first_occurrence (fold_case ?cs r) (fold_case ?cs (blank_nbsp S)) = None"
        by (rule no_factor_first_occurrence)
      then have "index_of ?cs r (blank_nbsp P2 @ blank_nbsp S) (length (blank_nbsp P2)) = None"
        unfolding index_of_append by simp
      then have "index_of ?cs r (blank_nbsp (P2 @ S)) (length P2) = None" by simp
      then have "find_from fl r (blank_nbsp (P2 @ S)) (length P2) = None"
        by (rule find_from_no_index)
      then have "document_find (P2 @ S) r cur2 fl = None"
        using document_find_from [OF r(1) r(2), of "P2 @ S" cur2 fl] s2 by simp
      then show ?thesis by (simp add: replace_loop_None)
    qed
    from 1 3 show ?thesis by blast
  next
    case (Some a)
    define i where "i = a - length P"
    define u where "u = take i S"
    define m where "m = take (length t) (drop i S)"
    define S2 where "S2 = drop (i + length t) S"
    note fo = find_from_occurrence [OF Some t, folded i_def]
    from fo have ba: "length P \<le> a" and bi: "i + length t \<le> length S"
      and occ: "fold_case ?cs (blank_nbsp m) = fold_case ?cs t"
      by (simp_all add: m_def)
    from fo have acc: "find_whole_words fl \<longrightarrow>
        \<not> ends_in_letter_or_number (P @ u) \<and> (S2 = [] \<or> \<not> is_letter_or_number (hd S2))"
      by (simp add: u_def S2_def)
    have a: "a = length P + i" using ba by (simp add: i_def)
    have pos: "0 < length t" using t(1) by simp
    have S: "S = u @ m @ S2"
      unfolding u_def m_def S2_def
      by (metis append_take_drop_id drop_drop add.commute)
    have lu: "length u = i" using bi by (simp add: u_def)
    have lm: "length m = length t" using bi by (simp add: m_def)
    from sp bi occ have m: "m = inserted t" by (simp add: m_def)
    have mne: "m \<noteq> []" using lm pos by auto
    let ?c = "\<lparr>anchor = a, position = a + length t\<rparr>"
    from Some df have fc: "document_find (P @ S) t cur fl = Some ?c" by simp
    have sc: "selection_start ?c = a" "selection_end ?c = a + length t"
      by (simp_all add: selection_start_def selection_end_def)
    have tk: "take a (P @ S) = P @ u" by (simp add: a S lu)
    have dr: "drop (a + length t) (P @ S) = S2"
      using lu lm by (simp add: a S add.assoc)
    let ?P1 = "P @ u @ r"
    let ?cur1 = "\<lparr>anchor = length ?P1, position = length ?P1\<rparr>"
    have rl: "replace_loop (P @ S) t r fl cur n = replace_loop (?P1 @ S2) t r fl ?cur1 (n + 1)"
      using replace_loop_Some [OF fc, of r n] unfolding sc tk dr r(3)
      by (simp add: a lu add.assoc)
    have len: "length S2 < length S" using pos bi unfolding S2_def length_drop by arith
    have s1: "selection_end ?cur1 = length ?P1" by (simp add: selection_end_def)
    have nf2: "\<forall>j. \<not> prefix (fold_case ?cs r) (drop j (fold_case ?cs (blank_nbsp S2)))"
      using nf by (simp add: S2_def)
    have sp2: "\<forall>j. j + length t \<le> length S2
           \<and> fold_case ?cs (blank_nbsp (take (length t) (drop j S2))) = fold_case ?cs t \<longrightarrow>
         take (length t) (drop j S2) = inserted t"
    proof (intro allI impI)
      fix j
      assume h: "j + length t \<le> length S2
           \<and> fold_case ?cs (blank_nbsp (take (length t) (drop j S2))) = fold_case ?cs t"
      have d: "drop j S2 = drop (j + (i + length t)) S" by (simp add: S2_def)
      from h have "j + length t \<le> length S - (i + length t)" by (simp add: S2_def)
      with pos have "j + (i + length t) + length t \<le> length S" by arith
      with h sp [rule_format, of "j + (i + length t)"]
      show "take (length t) (drop j S2) = inserted t" unfolding d by simp
    qed
    from less.hyps [OF len s1 nf2 sp2, of "n + 1"] obtain X2 where
      x1: "fst (replace_loop (?P1 @ S2) t r fl ?cur1 (n + 1)) = ?P1 @ X2"
      and x2: "find_whole_words fl \<longrightarrow> (S2 = [] \<or> \<not> is_letter_or_number (hd S2)) \<longrightarrow>
              (X2 = [] \<or> \<not> is_letter_or_number (hd X2))"
      and x3: "\<And>P2 cur2 n2. selection_end cur2 = length P2 \<Longrightarrow>
              (find_whole_words fl \<longrightarrow>
                 (\<not> ends_in_letter_or_number ?P1 \<longrightarrow> \<not> ends_in_letter_or_number P2)
                 \<or> \<not> prefix (fold_case ?cs t) (fold_case ?cs (blank_nbsp S2))) \<Longrightarrow>
              fst (replace_loop (P2 @ X2) r t fl cur2 n2) = P2 @ S2"
      by blast
    let ?X = "u @ r @ X2"
    have 1: "fst (replace_loop (P @ S) t r fl cur n) = P @ ?X"
      unfolding rl x1 by simp
    have hm: "is_letter_or_number (hd m) = is_letter_or_number (hd t)"
    proof -
      have "is_letter_or_number (hd (fold_case ?cs (blank_nbsp m))) = is_letter_or_number (hd m)"
        using mne by (rule is_letter_or_number_hd_search)
      moreover have "is_letter_or_number (hd (fold_case ?cs t)) = is_letter_or_number (hd t)"
        using t(1) by (rule is_letter_or_number_hd_fold_case)
      ultimately show ?thesis unfolding occ by simp
    qed
    have em: "ends_in_letter_or_number m = ends_in_letter_or_number t"
      using occ by (rule occurrence_ends)
    have 2: "find_whole_words fl \<longrightarrow> (S = [] \<or> \<not> is_letter_or_number (hd S)) \<longrightarrow>
              (?X = [] \<or> \<not> is_letter_or_number (hd ?X))"
    proof (intro impI)
      assume ww: "find_whole_words fl" and "S = [] \<or> \<not> is_letter_or_number (hd S)"
      with S mne have hS: "\<not> is_letter_or_number (hd S)" by auto
      show "?X = [] \<or> \<not> is_letter_or_number (hd ?X)"
      proof (cases "u = []")
        case False
        with S have "hd ?X = hd S" by (cases u) auto
        with hS show ?thesis by simp
      next
        case True
        with S mne have "hd S = hd m" by (cases m) auto
        with hS hm have "\<not> is_letter_or_number (hd t)" by simp
        with h5 ww have "\<not> is_letter_or_number (hd r)" by simp
        with True r(1) show ?thesis by (cases r) auto
      qed
    qed
    have 3: "fst (replace_loop (P2 @ ?X) r t fl cur2 n2) = P2 @ S"
      if s2: "selection_end cur2 = length P2"
        and inv: "find_whole_words fl \<longrightarrow>
                 (\<not> ends_in_letter_or_number P \<longrightarrow> \<not> ends_in_letter_or_number P2)
                 \<or> \<not> prefix (fold_case ?cs t) (fold_case ?cs (blank_nbsp S))"
      for P2 cur2 n2
    proof -
      have nfu: "\<not> prefix (fold_case ?cs r) (drop j (fold_case ?cs (blank_nbsp u)))" for j
        using no_factor_take [OF nf, of j i] by (simp add: u_def)
      have acc2: "find_whole_words fl \<longrightarrow>
          \<not> ends_in_letter_or_number (P2 @ u) \<and> (X2 = [] \<or> \<not> is_letter_or_number (hd X2))"
      proof
        assume ww: "find_whole_words fl"
        from acc ww have e: "\<not> ends_in_letter_or_number (P @ u)"
          and h: "S2 = [] \<or> \<not> is_letter_or_number (hd S2)" by simp_all
        have "\<not> ends_in_letter_or_number (P2 @ u)"
        proof (cases "u = []")
          case False
          with e ends_in_letter_or_number_append [OF False] show ?thesis by simp
        next
          case True
          with S have "S = m @ S2" by simp
          moreover from occ have "prefix (fold_case ?cs t) (fold_case ?cs (blank_nbsp m) @ fold_case ?cs (blank_nbsp S2))"
            by simp
          ultimately have "prefix (fold_case ?cs t) (fold_case ?cs (blank_nbsp S))" by simp
          with inv ww e True show ?thesis by simp
        qed
        with x2 ww h show "\<not> ends_in_letter_or_number (P2 @ u)
            \<and> (X2 = [] \<or> \<not> is_letter_or_number (hd X2))" by simp
      qed
      let ?P3 = "P2 @ u @ inserted t"
      let ?cur3 = "\<lparr>anchor = length ?P3, position = length ?P3\<rparr>"
      have st: "replace_loop (P2 @ ?X) r t fl cur2 n2 =
          replace_loop (?P3 @ X2) r t fl ?cur3 (n2 + 1)"
        using r(1) r(2) r(4) unb nfu s2 acc2 by (rule second_pass_step)
      have s3: "selection_end ?cur3 = length ?P3" by (simp add: selection_end_def)
      have inv3: "find_whole_words fl \<longrightarrow>
                 (\<not> ends_in_letter_or_number ?P1 \<longrightarrow> \<not> ends_in_letter_or_number ?P3)
                 \<or> \<not> prefix (fold_case ?cs t) (fold_case ?cs (blank_nbsp S2))"
      proof
        assume ww: "find_whole_words fl"
        from acc ww have h: "S2 = [] \<or> \<not> is_letter_or_number (hd S2)" by simp
        from h5 ww
        show "(\<not> ends_in_letter_or_number ?P1 \<longrightarrow> \<not> ends_in_letter_or_number ?P3)
                 \<or> \<not> prefix (fold_case ?cs t) (fold_case ?cs (blank_nbsp S2))"
        proof (elim impE disjE conjE)
          show "find_whole_words fl" by (rule ww)
        next
          assume l: "is_letter_or_number (hd t)"
          have "\<not> prefix (fold_case ?cs t) (fold_case ?cs (blank_nbsp S2))"
          proof
            assume "prefix (fold_case ?cs t) (fold_case ?cs (blank_nbsp S2))"
            from prefix_search_hd [OF this t(1)] l h show False by simp
          qed
          then show ?thesis ..
        next
          assume e: "ends_in_letter_or_number r = ends_in_letter_or_number t"
          have "ends_in_letter_or_number ?P1 = ends_in_letter_or_number r"
            using ends_in_letter_or_number_append [OF r(1), of "P @ u"] by simp
          moreover have "ends_in_letter_or_number ?P3 = ends_in_letter_or_number m"
            using ends_in_letter_or_number_append [OF mne, of "P2 @ u"] by (simp add: m)
          ultimately show ?thesis using e em by simp
        qed
      qed
      from x3 [OF s3 inv3, of "n2 + 1"] show ?thesis
        unfolding st by (simp add: S m)
    qed
    from 1 2 3 show ?thesis by blast
  qed
qed


lemma replace_loop_absent:
  assumes r: "r \<noteq> []" "newline \<notin> set r"
    and nf: "\<And>j. \<not> prefix (fold_case (find_case_sensitively fl) r)
              (drop j (fold_case (find_case_sensitively fl) (blank_nbsp S)))"
    and sel: "selection_end cur = 0"
  shows "replace_loop S r t fl cur n = (S, n)"
proof -
  let ?cs = "find_case_sensitively fl"
  from nf have "first_occurrence (fold_case ?cs r) (fold_case ?cs (blank_nbsp S)) = None"
    by (intro no_factor_first_occurrence) simp
  then have "index_of ?cs r ([] @ blank_nbsp S) (length ([] :: string)) = None"
    unfolding index_of_append by simp
  then have "index_of ?cs r (blank_nbsp S) 0 = None" by simp
  then have "find_from fl r (blank_nbsp S) 0 = None"
    by (rule find_from_no_index)
  then have "document_find S r cur fl = None"
    using document_find_from [OF r, of S cur fl] sel by simp
  then show ?thesis by (rule replace_loop_None)
qed

lemma dialog_replace_all_loop:
  "dialog_find_input dialog \<noteq> [] \<Longrightarrow>
     fst (dialog_replace_all dialog (doc, msg)) =
       fst (replace_loop doc (dialog_find_input dialog) (replace_input dialog)
              \<lparr>find_case_sensitively = case_sensitive dialog,
               find_whole_words = whole_words dialog\<rparr>
              \<lparr>anchor = 0, position = 0\<rparr> 0)"
  by (simp add: dialog_replace_all_def Let_def set_position_def split: prod.splits)

lemma replace_all_forth_and_back:
  assumes r: "replace_input dialog \<noteq> []" "newline \<notin> set (replace_input dialog)"
      "carriage_return \<notin> set (replace_input dialog)" "nbsp \<notin> set (replace_input dialog)"
    and unb: "\<not> bordered (fold_case (case_sensitive dialog) (replace_input dialog))"
    and absent: "occurrences (case_sensitive dialog) (replace_input dialog) doc = []"
    and spelled: "list_all (\<lambda>a. take (length (dialog_find_input dialog)) (drop a doc)
                                = inserted (dialog_find_input dialog))
                    (occurrences (case_sensitive dialog) (dialog_find_input dialog) doc)"
    and h5: "whole_words dialog \<longrightarrow>
        is_letter_or_number (hd (dialog_find_input dialog))
        \<or> (is_letter_or_number (hd (replace_input dialog))
              = is_letter_or_number (hd (dialog_find_input dialog))
            \<and> ends_in_letter_or_number (replace_input dialog)
              = ends_in_letter_or_number (dialog_find_input dialog))"
  shows "fst (dialog_replace_all (swapped dialog) (dialog_replace_all dialog (doc, msg))) = doc"
proof -
  let ?t = "dialog_find_input dialog" and ?r = "replace_input dialog"
  let ?cs = "case_sensitive dialog"
  let ?fl = "\<lparr>find_case_sensitively = case_sensitive dialog,
              find_whole_words = whole_words dialog\<rparr>"
  let ?c0 = "\<lparr>anchor = 0, position = 0\<rparr>"
  obtain R m where first: "dialog_replace_all dialog (doc, msg) = (R, m)"
    by (cases "dialog_replace_all dialog (doc, msg)")
  have sw: "dialog_find_input (swapped dialog) = ?r" "replace_input (swapped dialog) = ?t"
    "case_sensitive (swapped dialog) = ?cs" "whole_words (swapped dialog) = whole_words dialog"
    by (simp_all add: swapped_def)
  have bk: "fst (dialog_replace_all (swapped dialog) (R, m)) = fst (replace_loop R ?r ?t ?fl ?c0 0)"
    using dialog_replace_all_loop [of "swapped dialog" R m] r(1) unfolding sw by simp
  have c0: "selection_end ?c0 = 0" "selection_end ?c0 = length ([] :: string)"
    by (simp_all add: selection_end_def)
  have nf: "\<not> prefix (fold_case (find_case_sensitively ?fl) ?r)
              (drop j (fold_case (find_case_sensitively ?fl) (blank_nbsp doc)))" for j
    using no_occurrence_no_factor [OF absent r(1) r(2), of j] by simp
  show ?thesis
  proof (cases "?t = [] \<or> newline \<in> set ?t")
    case True
    then have "R = doc"
    proof
      assume "?t = []"
      with first show ?thesis by (simp add: dialog_replace_all_def)
    next
      assume nl: "newline \<in> set ?t"
      then have ne: "?t \<noteq> []" by auto
      have "replace_loop doc ?t ?r ?fl ?c0 0 = (doc, 0)"
        by (intro replace_loop_None document_find_newline nl)
      with dialog_replace_all_loop [OF ne, of doc msg] first show ?thesis by simp
    qed
    moreover have "replace_loop doc ?r ?t ?fl ?c0 0 = (doc, 0)"
      using r(1) r(2) nf c0(1) by (rule replace_loop_absent)
    ultimately show ?thesis using first bk by simp
  next
    case False
    then have t: "?t \<noteq> []" "newline \<notin> set ?t" by simp_all
    have sp: "\<forall>j. j + length ?t \<le> length doc
           \<and> fold_case (find_case_sensitively ?fl) (blank_nbsp (take (length ?t) (drop j doc)))
               = fold_case (find_case_sensitively ?fl) ?t \<longrightarrow>
         take (length ?t) (drop j doc) = inserted ?t"
    proof (intro allI impI)
      fix j
      assume "j + length ?t \<le> length doc
           \<and> fold_case (find_case_sensitively ?fl) (blank_nbsp (take (length ?t) (drop j doc)))
               = fold_case (find_case_sensitively ?fl) ?t"
      with t(2) have "occurs_at ?cs ?t doc j" by (simp add: occurs_at_def)
      then have "j \<in> set (occurrences ?cs ?t doc)" by (simp add: set_occurrences)
      with spelled show "take (length ?t) (drop j doc) = inserted ?t"
        by (simp add: list_all_iff)
    qed
    have unb': "\<not> bordered (fold_case (find_case_sensitively ?fl) ?r)"
      using unb by simp
    have h5': "find_whole_words ?fl \<longrightarrow>
        is_letter_or_number (hd ?t)
        \<or> (is_letter_or_number (hd ?r) = is_letter_or_number (hd ?t)
            \<and> ends_in_letter_or_number ?r = ends_in_letter_or_number ?t)"
      using h5 by simp
    have nf': "\<forall>j. \<not> prefix (fold_case (find_case_sensitively ?fl) ?r)
             (drop j (fold_case (find_case_sensitively ?fl) (blank_nbsp doc)))"
      using nf by blast
    from round_trip_step [OF t r(1) r(2) inserted_id [OF r(3)] blank_nbsp_id [OF r(4)]
        unb' h5' c0(2) nf' sp, of 0]
    obtain X where x1: "fst (replace_loop ([] @ doc) ?t ?r ?fl ?c0 0) = [] @ X"
      and x3: "\<And>P2 cur2 n2. selection_end cur2 = length P2 \<Longrightarrow>
              (find_whole_words ?fl \<longrightarrow>
                 (\<not> ends_in_letter_or_number [] \<longrightarrow> \<not> ends_in_letter_or_number P2)
                 \<or> \<not> prefix (fold_case (find_case_sensitively ?fl) ?t)
                      (fold_case (find_case_sensitively ?fl) (blank_nbsp doc))) \<Longrightarrow>
              fst (replace_loop (P2 @ X) ?r ?t ?fl cur2 n2) = P2 @ doc"
      by blast
    from x1 dialog_replace_all_loop [OF t(1), of doc msg] first have R: "R = X" by simp
    from x3 [of ?c0 "[]" 0] c0(2) have "fst (replace_loop X ?r ?t ?fl ?c0 0) = doc"
      by (simp add: ends_in_letter_or_number_def)
    with bk R first show ?thesis by simp
  qed
qed


text \<open>
  Claim C4, as amended. For a replacement that is not empty, has no line break, carriage
  return or no-break space in it and of which no proper prefix is also a suffix (as the
  search compares); on a buffer in which the replacement does not occur, and in which at
  every occurrence of the term (as the search compares) stands the term itself, as the
  document stores it; and, with the whole-word option on, when the term starts with a
  letter or number, or the replacement starts with a letter or number exactly if the
  term does and ends in one exactly if the term does: replace-all of the term by the replacement, and then replace-all of the
  replacement by the term, gives the buffer back, whatever the case and whole-word
  options are.
\<close>

theorem replace_all_round_trip:
  "replace_input dialog \<noteq> [] \<and> newline \<notin> set (replace_input dialog)
   \<and> carriage_return \<notin> set (replace_input dialog) \<and> nbsp \<notin> set (replace_input dialog)
   \<and> \<not> bordered (fold_case (case_sensitive dialog) (replace_input dialog))
   \<and> occurrences (case_sensitive dialog) (replace_input dialog) doc = []
   \<and> list_all (\<lambda>a. take (length (dialog_find_input dialog)) (drop a doc)
                     = inserted (dialog_find_input dialog))
         (occurrences (case_sensitive dialog) (dialog_find_input dialog) doc)
   \<and> (whole_words dialog \<longrightarrow>
        is_letter_or_number (hd (dialog_find_input dialog))
        \<or> (is_letter_or_number (hd (replace_input dialog))
              = is_letter_or_number (hd (dialog_find_input dialog))
            \<and> ends_in_letter_or_number (replace_input dialog)
              = ends_in_letter_or_number (dialog_find_input dialog))) \<longrightarrow>
     fst (dialog_replace_all (swapped dialog) (dialog_replace_all dialog (doc, msg))) = doc"
  using replace_all_forth_and_back [of dialog doc msg] by blast

theorem replace_all_round_trip_witness:
  "occurrences False ''cat'' ''The quick fox jumps over the lazy fox'' = []
   \<and> occurrences False ''fox'' ''The quick fox jumps over the lazy fox'' = [10, 34]
   \<and> \<not> bordered (fold_case False ''cat'')
   \<and> is_letter_or_number (hd ''fox'')
   \<and> dialog_replace_all (dialog0 ''fox'' ''cat'' False True) (''The quick fox jumps over the lazy fox'', NoMessage)
       = (''The quick cat jumps over the lazy cat'', ReplacedOccurrences 2)
   \<and> fst (dialog_replace_all (swapped (dialog0 ''fox'' ''cat'' False True))
          (''The quick cat jumps over the lazy cat'', ReplacedOccurrences 2)) = ''The quick fox jumps over the lazy fox''
   \<and> dialog_replace_all (dialog0 ''fox'' ''cat'' False False) (''The quick fox jumps over the lazy fox'', NoMessage)
       = (''The quick cat jumps over the lazy cat'', ReplacedOccurrences 2)
   \<and> fst (dialog_replace_all (swapped (dialog0 ''fox'' ''cat'' False False))
          (''The quick cat jumps over the lazy cat'', ReplacedOccurrences 2)) = ''The quick fox jumps over the lazy fox''
   \<and> occurrences True ''cat'' ''The quick fox jumps over the lazy fox'' = []
   \<and> occurrences True ''fox'' ''The quick fox jumps over the lazy fox'' = [10, 34]
   \<and> \<not> bordered (fold_case True ''cat'')
   \<and> dialog_replace_all (dialog0 ''fox'' ''cat'' True False) (''The quick fox jumps over the lazy fox'', NoMessage)
       = (''The quick cat jumps over the lazy cat'', ReplacedOccurrences 2)
   \<and> fst (dialog_replace_all (swapped (dialog0 ''fox'' ''cat'' True False))
          (''The quick cat jumps over the lazy cat'', ReplacedOccurrences 2)) = ''The quick fox jumps over the lazy fox''
   \<and> dialog_replace_all (dialog0 ''fox'' ''cat'' True True) (''The quick fox jumps over the lazy fox'', NoMessage)
       = (''The quick cat jumps over the lazy cat'', ReplacedOccurrences 2)
   \<and> fst (dialog_replace_all (swapped (dialog0 ''fox'' ''cat'' True True))
          (''The quick cat jumps over the lazy cat'', ReplacedOccurrences 2)) = ''The quick fox jumps over the lazy fox''
   \<and> occurrences True ''-b'' ''+a, +a'' = []
   \<and> occurrences True ''+a'' ''+a, +a'' = [0, 4]
   \<and> \<not> bordered (fold_case True ''-b'')
   \<and> is_letter_or_number (hd ''-b'') = is_letter_or_number (hd ''+a'')
   \<and> ends_in_letter_or_number ''-b'' = ends_in_letter_or_number ''+a''
   \<and> dialog_replace_all (dialog0 ''+a'' ''-b'' True True) (''+a, +a'', NoMessage)
       = (''-b, -b'', ReplacedOccurrences 2)
   \<and> fst (dialog_replace_all (swapped (dialog0 ''+a'' ''-b'' True True))
          (''-b, -b'', ReplacedOccurrences 2)) = ''+a, +a''
   \<and> occurrences True [CHR ''t'', CHR ''h'', CHR 0xE9] [CHR ''c'', CHR ''a'', CHR ''f'', CHR 0xE9, CHR 0xA0, CHR ''C'', CHR ''a'', CHR ''f'', CHR 0xE9, CHR ''s'', CHR '' '', CHR ''c'', CHR ''a'', CHR ''f'', CHR 0xE9] = []
   \<and> occurrences True [CHR ''c'', CHR ''a'', CHR ''f'', CHR 0xE9] [CHR ''c'', CHR ''a'', CHR ''f'', CHR 0xE9, CHR 0xA0, CHR ''C'', CHR ''a'', CHR ''f'', CHR 0xE9, CHR ''s'', CHR '' '', CHR ''c'', CHR ''a'', CHR ''f'', CHR 0xE9] = [0, 11]
   \<and> \<not> bordered (fold_case True [CHR ''t'', CHR ''h'', CHR 0xE9])
   \<and> is_letter_or_number (hd [CHR ''c'', CHR ''a'', CHR ''f'', CHR 0xE9])
   \<and> dialog_replace_all (dialog0 [CHR ''c'', CHR ''a'', CHR ''f'', CHR 0xE9] [CHR ''t'', CHR ''h'', CHR 0xE9] True True) ([CHR ''c'', CHR ''a'', CHR ''f'', CHR 0xE9, CHR 0xA0, CHR ''C'', CHR ''a'', CHR ''f'', CHR 0xE9, CHR ''s'', CHR '' '', CHR ''c'', CHR ''a'', CHR ''f'', CHR 0xE9], NoMessage)
       = ([CHR ''t'', CHR ''h'', CHR 0xE9, CHR 0xA0, CHR ''C'', CHR ''a'', CHR ''f'', CHR 0xE9, CHR ''s'', CHR '' '', CHR ''t'', CHR ''h'', CHR 0xE9], ReplacedOccurrences 2)
   \<and> fst (dialog_replace_all (swapped (dialog0 [CHR ''c'', CHR ''a'', CHR ''f'', CHR 0xE9] [CHR ''t'', CHR ''h'', CHR 0xE9] True True))
          ([CHR ''t'', CHR ''h'', CHR 0xE9, CHR 0xA0, CHR ''C'', CHR ''a'', CHR ''f'', CHR 0xE9, CHR ''s'', CHR '' '', CHR ''t'', CHR ''h'', CHR 0xE9], ReplacedOccurrences 2)) = [CHR ''c'', CHR ''a'', CHR ''f'', CHR 0xE9, CHR 0xA0, CHR ''C'', CHR ''a'', CHR ''f'', CHR 0xE9, CHR ''s'', CHR '' '', CHR ''c'', CHR ''a'', CHR ''f'', CHR 0xE9]"
proof -
  have f10: "occurrences False ''cat'' ''The quick fox jumps over the lazy fox'' = []"
    by code_simp
  have f11: "occurrences False ''fox'' ''The quick fox jumps over the lazy fox'' = [10, 34]"
    by code_simp
  have f12: "\<not> bordered (fold_case False ''cat'')"
    by code_simp
  have f13: "is_letter_or_number (hd ''fox'')"
    by code_simp
  have h1: "replace_input (dialog0 ''fox'' ''cat'' False True) \<noteq> [] \<and> newline \<notin> set (replace_input (dialog0 ''fox'' ''cat'' False True))
     \<and> carriage_return \<notin> set (replace_input (dialog0 ''fox'' ''cat'' False True)) \<and> nbsp \<notin> set (replace_input (dialog0 ''fox'' ''cat'' False True))
     \<and> \<not> bordered (fold_case (case_sensitive (dialog0 ''fox'' ''cat'' False True)) (replace_input (dialog0 ''fox'' ''cat'' False True)))
     \<and> occurrences (case_sensitive (dialog0 ''fox'' ''cat'' False True)) (replace_input (dialog0 ''fox'' ''cat'' False True)) ''The quick fox jumps over the lazy fox'' = []
     \<and> list_all (\<lambda>a. take (length (dialog_find_input (dialog0 ''fox'' ''cat'' False True))) (drop a ''The quick fox jumps over the lazy fox'')
                       = inserted (dialog_find_input (dialog0 ''fox'' ''cat'' False True)))
           (occurrences (case_sensitive (dialog0 ''fox'' ''cat'' False True)) (dialog_find_input (dialog0 ''fox'' ''cat'' False True)) ''The quick fox jumps over the lazy fox'')
     \<and> (whole_words (dialog0 ''fox'' ''cat'' False True) \<longrightarrow>
          is_letter_or_number (hd (dialog_find_input (dialog0 ''fox'' ''cat'' False True)))
          \<or> (is_letter_or_number (hd (replace_input (dialog0 ''fox'' ''cat'' False True)))
                = is_letter_or_number (hd (dialog_find_input (dialog0 ''fox'' ''cat'' False True)))
              \<and> ends_in_letter_or_number (replace_input (dialog0 ''fox'' ''cat'' False True))
                = ends_in_letter_or_number (dialog_find_input (dialog0 ''fox'' ''cat'' False True))))"
    by code_simp
  have e1: "dialog_replace_all (dialog0 ''fox'' ''cat'' False True) (''The quick fox jumps over the lazy fox'', NoMessage)
       = (''The quick cat jumps over the lazy cat'', ReplacedOccurrences 2)"
    by code_simp
  have b1: "fst (dialog_replace_all (swapped (dialog0 ''fox'' ''cat'' False True))
          (''The quick cat jumps over the lazy cat'', ReplacedOccurrences 2)) = ''The quick fox jumps over the lazy fox''"
    using mp [OF replace_all_round_trip [of "dialog0 ''fox'' ''cat'' False True" "''The quick fox jumps over the lazy fox''" NoMessage] h1]
    unfolding e1 .
  have h2: "replace_input (dialog0 ''fox'' ''cat'' False False) \<noteq> [] \<and> newline \<notin> set (replace_input (dialog0 ''fox'' ''cat'' False False))
     \<and> carriage_return \<notin> set (replace_input (dialog0 ''fox'' ''cat'' False False)) \<and> nbsp \<notin> set (replace_input (dialog0 ''fox'' ''cat'' False False))
     \<and> \<not> bordered (fold_case (case_sensitive (dialog0 ''fox'' ''cat'' False False)) (replace_input (dialog0 ''fox'' ''cat'' False False)))
     \<and> occurrences (case_sensitive (dialog0 ''fox'' ''cat'' False False)) (replace_input (dialog0 ''fox'' ''cat'' False False)) ''The quick fox jumps over the lazy fox'' = []
     \<and> list_all (\<lambda>a. take (length (dialog_find_input (dialog0 ''fox'' ''cat'' False False))) (drop a ''The quick fox jumps over the lazy fox'')
                       = inserted (dialog_find_input (dialog0 ''fox'' ''cat'' False False)))
           (occurrences (case_sensitive (dialog0 ''fox'' ''cat'' False False)) (dialog_find_input (dialog0 ''fox'' ''cat'' False False)) ''The quick fox jumps over the lazy fox'')
     \<and> (whole_words (dialog0 ''fox'' ''cat'' False False) \<longrightarrow>
          is_letter_or_number (hd (dialog_find_input (dialog0 ''fox'' ''cat'' False False)))
          \<or> (is_letter_or_number (hd (replace_input (dialog0 ''fox'' ''cat'' False False)))
                = is_letter_or_number (hd (dialog_find_input (dialog0 ''fox'' ''cat'' False False)))
              \<and> ends_in_letter_or_number (replace_input (dialog0 ''fox'' ''cat'' False False))
                = ends_in_letter_or_number (dialog_find_input (dialog0 ''fox'' ''cat'' False False))))"
    by code_simp
  have e2: "dialog_replace_all (dialog0 ''fox'' ''cat'' False False) (''The quick fox jumps over the lazy fox'', NoMessage)
       = (''The quick cat jumps over the lazy cat'', ReplacedOccurrences 2)"
    by code_simp
  have b2: "fst (dialog_replace_all (swapped (dialog0 ''fox'' ''cat'' False False))
          (''The quick cat jumps over the lazy cat'', ReplacedOccurrences 2)) = ''The quick fox jumps over the lazy fox''"
    using mp [OF replace_all_round_trip [of "dialog0 ''fox'' ''cat'' False False" "''The quick fox jumps over the lazy fox''" NoMessage] h2]
    unfolding e2 .
  have f30: "occurrences True ''cat'' ''The quick fox jumps over the lazy fox'' = []"
    by code_simp
  have f31: "occurrences True ''fox'' ''The quick fox jumps over the lazy fox'' = [10, 34]"
    by code_simp
  have f32: "\<not> bordered (fold_case True ''cat'')"
    by code_simp
  have h3: "replace_input (dialog0 ''fox'' ''cat'' True False) \<noteq> [] \<and> newline \<notin> set (replace_input (dialog0 ''fox'' ''cat'' True False))
     \<and> carriage_return \<notin> set (replace_input (dialog0 ''fox'' ''cat'' True False)) \<and> nbsp \<notin> set (replace_input (dialog0 ''fox'' ''cat'' True False))
     \<and> \<not> bordered (fold_case (case_sensitive (dialog0 ''fox'' ''cat'' True False)) (replace_input (dialog0 ''fox'' ''cat'' True False)))
     \<and> occurrences (case_sensitive (dialog0 ''fox'' ''cat'' True False)) (replace_input (dialog0 ''fox'' ''cat'' True False)) ''The quick fox jumps over the lazy fox'' = []
     \<and> list_all (\<lambda>a. take (length (dialog_find_input (dialog0 ''fox'' ''cat'' True False))) (drop a ''The quick fox jumps over the lazy fox'')
                       = inserted (dialog_find_input (dialog0 ''fox'' ''cat'' True False)))
           (occurrences (case_sensitive (dialog0 ''fox'' ''cat'' True False)) (dialog_find_input (dialog0 ''fox'' ''cat'' True False)) ''The quick fox jumps over the lazy fox'')
     \<and> (whole_words (dialog0 ''fox'' ''cat'' True False) \<longrightarrow>
          is_letter_or_number (hd (dialog_find_input (dialog0 ''fox'' ''cat'' True False)))
          \<or> (is_letter_or_number (hd (replace_input (dialog0 ''fox'' ''cat'' True False)))
                = is_letter_or_number (hd (dialog_find_input (dialog0 ''fox'' ''cat'' True False)))
              \<and> ends_in_letter_or_number (replace_input (dialog0 ''fox'' ''cat'' True False))
                = ends_in_letter_or_number (dialog_find_input (dialog0 ''fox'' ''cat'' True False))))"
    by code_simp
  have e3: "dialog_replace_all (dialog0 ''fox'' ''cat'' True False) (''The quick fox jumps over the lazy fox'', NoMessage)
       = (''The quick cat jumps over the lazy cat'', ReplacedOccurrences 2)"
    by code_simp
  have b3: "fst (dialog_replace_all (swapped (dialog0 ''fox'' ''cat'' True False))
          (''The quick cat jumps over the lazy cat'', ReplacedOccurrences 2)) = ''The quick fox jumps over the lazy fox''"
    using mp [OF replace_all_round_trip [of "dialog0 ''fox'' ''cat'' True False" "''The quick fox jumps over the lazy fox''" NoMessage] h3]
    unfolding e3 .
  have h4: "replace_input (dialog0 ''fox'' ''cat'' True True) \<noteq> [] \<and> newline \<notin> set (replace_input (dialog0 ''fox'' ''cat'' True True))
     \<and> carriage_return \<notin> set (replace_input (dialog0 ''fox'' ''cat'' True True)) \<and> nbsp \<notin> set (replace_input (dialog0 ''fox'' ''cat'' True True))
     \<and> \<not> bordered (fold_case (case_sensitive (dialog0 ''fox'' ''cat'' True True)) (replace_input (dialog0 ''fox'' ''cat'' True True)))
     \<and> occurrences (case_sensitive (dialog0 ''fox'' ''cat'' True True)) (replace_input (dialog0 ''fox'' ''cat'' True True)) ''The quick fox jumps over the lazy fox'' = []
     \<and> list_all (\<lambda>a. take (length (dialog_find_input (dialog0 ''fox'' ''cat'' True True))) (drop a ''The quick fox jumps over the lazy fox'')
                       = inserted (dialog_find_input (dialog0 ''fox'' ''cat'' True True)))
           (occurrences (case_sensitive (dialog0 ''fox'' ''cat'' True True)) (dialog_find_input (dialog0 ''fox'' ''cat'' True True)) ''The quick fox jumps over the lazy fox'')
     \<and> (whole_words (dialog0 ''fox'' ''cat'' True True) \<longrightarrow>
          is_letter_or_number (hd (dialog_find_input (dialog0 ''fox'' ''cat'' True True)))
          \<or> (is_letter_or_number (hd (replace_input (dialog0 ''fox'' ''cat'' True True)))
                = is_letter_or_number (hd (dialog_find_input (dialog0 ''fox'' ''cat'' True True)))
              \<and> ends_in_letter_or_number (replace_input (dialog0 ''fox'' ''cat'' True True))
                = ends_in_letter_or_number (dialog_find_input (dialog0 ''fox'' ''cat'' True True))))"
    by code_simp
  have e4: "dialog_replace_all (dialog0 ''fox'' ''cat'' True True) (''The quick fox jumps over the lazy fox'', NoMessage)
       = (''The quick cat jumps over the lazy cat'', ReplacedOccurrences 2)"
    by code_simp
  have b4: "fst (dialog_replace_all (swapped (dialog0 ''fox'' ''cat'' True True))
          (''The quick cat jumps over the lazy cat'', ReplacedOccurrences 2)) = ''The quick fox jumps over the lazy fox''"
    using mp [OF replace_all_round_trip [of "dialog0 ''fox'' ''cat'' True True" "''The quick fox jumps over the lazy fox''" NoMessage] h4]
    unfolding e4 .
  have f50: "occurrences True ''-b'' ''+a, +a'' = []"
    by code_simp
  have f51: "occurrences True ''+a'' ''+a, +a'' = [0, 4]"
    by code_simp
  have f52: "\<not> bordered (fold_case True ''-b'')"
    by code_simp
  have f53: "is_letter_or_number (hd ''-b'') = is_letter_or_number (hd ''+a'')"
    by code_simp
  have f54: "ends_in_letter_or_number ''-b'' = ends_in_letter_or_number ''+a''"
    by code_simp
  have h5: "replace_input (dialog0 ''+a'' ''-b'' True True) \<noteq> [] \<and> newline \<notin> set (replace_input (dialog0 ''+a'' ''-b'' True True))
     \<and> carriage_return \<notin> set (replace_input (dialog0 ''+a'' ''-b'' True True)) \<and> nbsp \<notin> set (replace_input (dialog0 ''+a'' ''-b'' True True))
     \<and> \<not> bordered (fold_case (case_sensitive (dialog0 ''+a'' ''-b'' True True)) (replace_input (dialog0 ''+a'' ''-b'' True True)))
     \<and> occurrences (case_sensitive (dialog0 ''+a'' ''-b'' True True)) (replace_input (dialog0 ''+a'' ''-b'' True True)) ''+a, +a'' = []
     \<and> list_all (\<lambda>a. take (length (dialog_find_input (dialog0 ''+a'' ''-b'' True True))) (drop a ''+a, +a'')
                       = inserted (dialog_find_input (dialog0 ''+a'' ''-b'' True True)))
           (occurrences (case_sensitive (dialog0 ''+a'' ''-b'' True True)) (dialog_find_input (dialog0 ''+a'' ''-b'' True True)) ''+a, +a'')
     \<and> (whole_words (dialog0 ''+a'' ''-b'' True True) \<longrightarrow>
          is_letter_or_number (hd (dialog_find_input (dialog0 ''+a'' ''-b'' True True)))
          \<or> (is_letter_or_number (hd (replace_input (dialog0 ''+a'' ''-b'' True True)))
                = is_letter_or_number (hd (dialog_find_input (dialog0 ''+a'' ''-b'' True True)))
              \<and> ends_in_letter_or_number (replace_input (dialog0 ''+a'' ''-b'' True True))
                = ends_in_letter_or_number (dialog_find_input (dialog0 ''+a'' ''-b'' True True))))"
    by code_simp
  have e5: "dialog_replace_all (dialog0 ''+a'' ''-b'' True True) (''+a, +a'', NoMessage)
       = (''-b, -b'', ReplacedOccurrences 2)"
    by code_simp
  have b5: "fst (dialog_replace_all (swapped (dialog0 ''+a'' ''-b'' True True))
          (''-b, -b'', ReplacedOccurrences 2)) = ''+a, +a''"
    using mp [OF replace_all_round_trip [of "dialog0 ''+a'' ''-b'' True True" "''+a, +a''" NoMessage] h5]
    unfolding e5 .
  have f60: "occurrences True [CHR ''t'', CHR ''h'', CHR 0xE9] [CHR ''c'', CHR ''a'', CHR ''f'', CHR 0xE9, CHR 0xA0, CHR ''C'', CHR ''a'', CHR ''f'', CHR 0xE9, CHR ''s'', CHR '' '', CHR ''c'', CHR ''a'', CHR ''f'', CHR 0xE9] = []"
    by code_simp
  have f61: "occurrences True [CHR ''c'', CHR ''a'', CHR ''f'', CHR 0xE9] [CHR ''c'', CHR ''a'', CHR ''f'', CHR 0xE9, CHR 0xA0, CHR ''C'', CHR ''a'', CHR ''f'', CHR 0xE9, CHR ''s'', CHR '' '', CHR ''c'', CHR ''a'', CHR ''f'', CHR 0xE9] = [0, 11]"
    by code_simp
  have f62: "\<not> bordered (fold_case True [CHR ''t'', CHR ''h'', CHR 0xE9])"
    by code_simp
  have f63: "is_letter_or_number (hd [CHR ''c'', CHR ''a'', CHR ''f'', CHR 0xE9])"
    by code_simp
  have h6: "replace_input (dialog0 [CHR ''c'', CHR ''a'', CHR ''f'', CHR 0xE9] [CHR ''t'', CHR ''h'', CHR 0xE9] True True) \<noteq> [] \<and> newline \<notin> set (replace_input (dialog0 [CHR ''c'', CHR ''a'', CHR ''f'', CHR 0xE9] [CHR ''t'', CHR ''h'', CHR 0xE9] True True))
     \<and> carriage_return \<notin> set (replace_input (dialog0 [CHR ''c'', CHR ''a'', CHR ''f'', CHR 0xE9] [CHR ''t'', CHR ''h'', CHR 0xE9] True True)) \<and> nbsp \<notin> set (replace_input (dialog0 [CHR ''c'', CHR ''a'', CHR ''f'', CHR 0xE9] [CHR ''t'', CHR ''h'', CHR 0xE9] True True))
     \<and> \<not> bordered (fold_case (case_sensitive (dialog0 [CHR ''c'', CHR ''a'', CHR ''f'', CHR 0xE9] [CHR ''t'', CHR ''h'', CHR 0xE9] True True)) (replace_input (dialog0 [CHR ''c'', CHR ''a'', CHR ''f'', CHR 0xE9] [CHR ''t'', CHR ''h'', CHR 0xE9] True True)))
     \<and> occurrences (case_sensitive (dialog0 [CHR ''c'', CHR ''a'', CHR ''f'', CHR 0xE9] [CHR ''t'', CHR ''h'', CHR 0xE9] True True)) (replace_input (dialog0 [CHR ''c'', CHR ''a'', CHR ''f'', CHR 0xE9] [CHR ''t'', CHR ''h'', CHR 0xE9] True True)) [CHR ''c'', CHR ''a'', CHR ''f'', CHR 0xE9, CHR 0xA0, CHR ''C'', CHR ''a'', CHR ''f'', CHR 0xE9, CHR ''s'', CHR '' '', CHR ''c'', CHR ''a'', CHR ''f'', CHR 0xE9] = []
     \<and> list_all (\<lambda>a. take (length (dialog_find_input (dialog0 [CHR ''c'', CHR ''a'', CHR ''f'', CHR 0xE9] [CHR ''t'', CHR ''h'', CHR 0xE9] True True))) (drop a [CHR ''c'', CHR ''a'', CHR ''f'', CHR 0xE9, CHR 0xA0, CHR ''C'', CHR ''a'', CHR ''f'', CHR 0xE9, CHR ''s'', CHR '' '', CHR ''c'', CHR ''a'', CHR ''f'', CHR 0xE9])
                       = inserted (dialog_find_input (dialog0 [CHR ''c'', CHR ''a'', CHR ''f'', CHR 0xE9] [CHR ''t'', CHR ''h'', CHR 0xE9] True True)))
           (occurrences (case_sensitive (dialog0 [CHR ''c'', CHR ''a'', CHR ''f'', CHR 0xE9] [CHR ''t'', CHR ''h'', CHR 0xE9] True True)) (dialog_find_input (dialog0 [CHR ''c'', CHR ''a'', CHR ''f'', CHR 0xE9] [CHR ''t'', CHR ''h'', CHR 0xE9] True True)) [CHR ''c'', CHR ''a'', CHR ''f'', CHR 0xE9, CHR 0xA0, CHR ''C'', CHR ''a'', CHR ''f'', CHR 0xE9, CHR ''s'', CHR '' '', CHR ''c'', CHR ''a'', CHR ''f'', CHR 0xE9])
     \<and> (whole_words (dialog0 [CHR ''c'', CHR ''a'', CHR ''f'', CHR 0xE9] [CHR ''t'', CHR ''h'', CHR 0xE9] True True) \<longrightarrow>
          is_letter_or_number (hd (dialog_find_input (dialog0 [CHR ''c'', CHR ''a'', CHR ''f'', CHR 0xE9] [CHR ''t'', CHR ''h'', CHR 0xE9] True True)))
          \<or> (is_letter_or_number (hd (replace_input (dialog0 [CHR ''c'', CHR ''a'', CHR ''f'', CHR 0xE9] [CHR ''t'', CHR ''h'', CHR 0xE9] True True)))
                = is_letter_or_number (hd (dialog_find_input (dialog0 [CHR ''c'', CHR ''a'', CHR ''f'', CHR 0xE9] [CHR ''t'', CHR ''h'', CHR 0xE9] True True)))
              \<and> ends_in_letter_or_number (replace_input (dialog0 [CHR ''c'', CHR ''a'', CHR ''f'', CHR 0xE9] [CHR ''t'', CHR ''h'', CHR 0xE9] True True))
                = ends_in_letter_or_number (dialog_find_input (dialog0 [CHR ''c'', CHR ''a'', CHR ''f'', CHR 0xE9] [CHR ''t'', CHR ''h'', CHR 0xE9] True True))))"
    by code_simp
  have e6: "dialog_replace_all (dialog0 [CHR ''c'', CHR ''a'', CHR ''f'', CHR 0xE9] [CHR ''t'', CHR ''h'', CHR 0xE9] True True) ([CHR ''c'', CHR ''a'', CHR ''f'', CHR 0xE9, CHR 0xA0, CHR ''C'', CHR ''a'', CHR ''f'', CHR 0xE9, CHR ''s'', CHR '' '', CHR ''c'', CHR ''a'', CHR ''f'', CHR 0xE9], NoMessage)
       = ([CHR ''t'', CHR ''h'', CHR 0xE9, CHR 0xA0, CHR ''C'', CHR ''a'', CHR ''f'', CHR 0xE9, CHR ''s'', CHR '' '', CHR ''t'', CHR ''h'', CHR 0xE9], ReplacedOccurrences 2)"
    by code_simp
  have b6: "fst (dialog_replace_all (swapped (dialog0 [CHR ''c'', CHR ''a'', CHR ''f'', CHR 0xE9] [CHR ''t'', CHR ''h'', CHR 0xE9] True True))
          ([CHR ''t'', CHR ''h'', CHR 0xE9, CHR 0xA0, CHR ''C'', CHR ''a'', CHR ''f'', CHR 0xE9, CHR ''s'', CHR '' '', CHR ''t'', CHR ''h'', CHR 0xE9], ReplacedOccurrences 2)) = [CHR ''c'', CHR ''a'', CHR ''f'', CHR 0xE9, CHR 0xA0, CHR ''C'', CHR ''a'', CHR ''f'', CHR 0xE9, CHR ''s'', CHR '' '', CHR ''c'', CHR ''a'', CHR ''f'', CHR 0xE9]"
    using mp [OF replace_all_round_trip [of "dialog0 [CHR ''c'', CHR ''a'', CHR ''f'', CHR 0xE9] [CHR ''t'', CHR ''h'', CHR 0xE9] True True" "[CHR ''c'', CHR ''a'', CHR ''f'', CHR 0xE9, CHR 0xA0, CHR ''C'', CHR ''a'', CHR ''f'', CHR 0xE9, CHR ''s'', CHR '' '', CHR ''c'', CHR ''a'', CHR ''f'', CHR 0xE9]" NoMessage] h6]
    unfolding e6 .
  show ?thesis
    by (intro conjI f10 f11 f12 f13 e1 b1 e2 b2 f30 f31 f32 e3 b3 e4 b4 f50 f51 f52 f53 f54 e5 b5 f60 f61 f62 f63 e6 b6)
qed

theorem replace_all_round_trip_counterexample:
  "set ''fox'' \<inter> set ''cat'' = {}
   \<and> dialog_replace_all (dialog0 ''fox'' ''cat'' True False) (''cat fox'', NoMessage)
       = (''cat cat'', ReplacedOccurrences 1)
   \<and> dialog_replace_all (swapped (dialog0 ''fox'' ''cat'' True False))
        (''cat cat'', ReplacedOccurrences 1)
       = (''fox fox'', ReplacedOccurrences 2)
   \<and> ''fox fox'' \<noteq> ''cat fox''
   \<and> dialog_replace_all (dialog0 ''fox'' ''cat'' False False) (''FOX'', NoMessage)
       = (''cat'', ReplacedOccurrences 1)
   \<and> dialog_replace_all (swapped (dialog0 ''fox'' ''cat'' False False))
        (''cat'', ReplacedOccurrences 1)
       = (''fox'', ReplacedOccurrences 1)
   \<and> ''fox'' \<noteq> ''FOX''
   \<and> dialog_replace_all (dialog0 ''+a'' ''-'' True True) (''+a+a'', NoMessage)
       = (''--'', ReplacedOccurrences 2)
   \<and> dialog_replace_all (swapped (dialog0 ''+a'' ''-'' True True))
        (''--'', ReplacedOccurrences 2)
       = (''+a-'', ReplacedOccurrences 1)
   \<and> ''+a-'' \<noteq> ''+a+a''
   \<and> set ''b'' \<inter> set ''aa'' = {}
   \<and> dialog_replace_all (dialog0 ''b'' ''aa'' True False) (''ab'', NoMessage)
       = (''aaa'', ReplacedOccurrences 1)
   \<and> dialog_replace_all (swapped (dialog0 ''b'' ''aa'' True False))
        (''aaa'', ReplacedOccurrences 1)
       = (''ba'', ReplacedOccurrences 1)
   \<and> ''ba'' \<noteq> ''ab''"
  by code_simp

end
